theory Spec2Isabelle
  imports Complex_Main
begin

section \<open>Errors\<close>

text \<open>
  The exceptions the program raises, as values. \<open>ValueError\<close> and \<open>TypeError\<close> are
  raised by the program's own \<open>raise\<close> statements, \<open>IndexError\<close> by an index into an
  empty list; \<open>ExternalError\<close> stands for an exception raised inside a call out of the
  module: into the gmsh library, into \<open>tempfile\<close>, or into MOAB's file reader.
\<close>

datatype error = ValueError | TypeError | IndexError | ExternalError

text \<open>
  The calls out of the module that may raise. Which of them do is a parameter \<open>raises\<close>
  of every operation below. The operations of the MOAB store on sets, tags and relations
  work in memory on handles the store itself handed out, and are taken to return.
\<close>

datatype external_call =
    Initialize | SetNumber | Open | Write | FltkInitialize | FltkFinalize
  | ModelAdd | ImportShapes | Synchronize | AddPhysicalGroup | Generate
  | GetEntities | GetPhysicalGroupsForEntity | GetPhysicalName | GetAdjacencies
  | RemovePhysicalGroups | TempFile | LoadFile

text \<open>A call is made before the rest of the block runs: if it raises, the rest is skipped.\<close>

definition attempt :: "(external_call \<Rightarrow> bool) \<Rightarrow> external_call \<Rightarrow> error + 'a \<Rightarrow> error + 'a" where
  "attempt raises k rest = (if raises k then Inl ExternalError else rest)"

section \<open>The MOAB entity store (pymoab.core.Core)\<close>

text \<open>
  An entity handle is a \<open>np.uint64\<close>; \<open>0\<close> is the value of an unset sense slot.
  \<open>create_meshset\<close> hands out the set handles \<open>1, 2, 3, ...\<close> in creation order.
  Besides entity sets the store holds the facets read by \<open>load_file\<close>; one batch of
  facets per call, named by its position in the list of loads.
\<close>

type_synonym handle = nat

datatype entity = MeshSet handle | FacetBatch nat

text \<open>The keys of the dictionary built by \<open>_get_moab_tag_handles\<close>.\<close>

datatype tag_name = SurfSense | Category | Name | GeomDimension | FacetingTol | GlobalId

datatype tag_value =
    IntVal int
  | StrVal string
  | HandleList "handle list"
  | DoubleVal real

text \<open>
  \<open>tag_data\<close> lists every call of \<open>tag_set_data\<close>, the newest first, so the value of
  a tag on an entity is the first entry for it. \<open>contents\<close> is the membership relation
  (\<open>add_entity\<close>, \<open>add_entities\<close>, and the set a file is loaded into); \<open>children\<close> and
  \<open>parents\<close> are the two tables \<open>add_parent_child\<close> maintains; \<open>loaded\<close> lists the calls
  of \<open>load_file\<close> in order, each with the gmsh surface whose facets the file holds and the
  set it was loaded into.
\<close>

record core =
  n_sets :: nat
  tag_data :: "((tag_name \<times> handle) \<times> tag_value) list"
  contents :: "handle \<Rightarrow> entity list"
  children :: "handle \<Rightarrow> handle list"
  parents :: "handle \<Rightarrow> handle list"
  loaded :: "(int \<times> handle) list"

definition new_core :: core where
  "new_core = \<lparr> n_sets = 0, tag_data = [], contents = (\<lambda>_. []),
                 children = (\<lambda>_. []), parents = (\<lambda>_. []), loaded = [] \<rparr>"

definition create_meshset :: "core \<Rightarrow> handle \<times> core" where
  "create_meshset c = (Suc (n_sets c), c\<lparr> n_sets := Suc (n_sets c) \<rparr>)"

definition tag_set_data :: "tag_name \<Rightarrow> handle \<Rightarrow> tag_value \<Rightarrow> core \<Rightarrow> core" where
  "tag_set_data t h v c = c\<lparr> tag_data := ((t, h), v) # tag_data c \<rparr>"

definition tag_get_data :: "core \<Rightarrow> tag_name \<Rightarrow> handle \<Rightarrow> tag_value option" where
  "tag_get_data c t h = map_of (tag_data c) (t, h)"

definition add_entity :: "handle \<Rightarrow> entity \<Rightarrow> core \<Rightarrow> core" where
  "add_entity s e c = c\<lparr> contents := (contents c)(s := List.insert e (contents c s)) \<rparr>"

definition add_entities :: "handle \<Rightarrow> entity list \<Rightarrow> core \<Rightarrow> core" where
  "add_entities s es c = fold (add_entity s) es c"

definition add_parent_child :: "handle \<Rightarrow> handle \<Rightarrow> core \<Rightarrow> core" where
  "add_parent_child p ch c =
     c\<lparr> children := (children c)(p := children c p @ (if ch \<in> set (children c p) then [] else [ch])),
        parents := (parents c)(ch := parents c ch @ (if p \<in> set (parents c ch) then [] else [p])) \<rparr>"

text \<open>
  \<open>load_file surface_tag h\<close> stands for the export of the facets of gmsh surface
  \<open>surface_tag\<close> to a temporary STL file and \<open>core.load_file(stl_file.name, h)\<close>: a new
  batch of facets enters the store and the set \<open>h\<close>.
\<close>

definition load_file :: "int \<Rightarrow> handle \<Rightarrow> core \<Rightarrow> core" where
  "load_file surface_tag h c =
     add_entity h (FacetBatch (length (loaded c))) (c\<lparr> loaded := loaded c @ [(surface_tag, h)] \<rparr>)"

text \<open>\<open>core.get_entities_by_handle(0)\<close>: everything in the store.\<close>

definition get_entities_by_handle :: "core \<Rightarrow> entity list" where
  "get_entities_by_handle c =
     map MeshSet [1 ..< Suc (n_sets c)] @ map FacetBatch [0 ..< length (loaded c)]"

text \<open>\<open>get_entities_by_type_and_tag(0, MBENTITYSET, dim_tag, [dim])\<close>, in handle order.\<close>

definition get_entities_of_geom_dimension :: "core \<Rightarrow> int \<Rightarrow> handle list" where
  "get_entities_of_geom_dimension c d =
     filter (\<lambda>h. tag_get_data c GeomDimension h = Some (IntVal d)) [1 ..< Suc (n_sets c)]"

definition surfaces :: "core \<Rightarrow> handle list" where
  "surfaces c = get_entities_of_geom_dimension c 2"

definition volumes :: "core \<Rightarrow> handle list" where
  "volumes c = get_entities_of_geom_dimension c 3"

definition adjacent_volumes :: "core \<Rightarrow> handle \<Rightarrow> handle list" where
  "adjacent_volumes c h = parents c h"

definition adjacent_surfaces :: "core \<Rightarrow> handle \<Rightarrow> handle list" where
  "adjacent_surfaces c h = children c h"

section \<open>The gmsh model a mesh file holds\<close>

text \<open>
  What the gmsh session answers once the mesh file is open: the entities as
  (dimension, tag) pairs, the adjacencies of an entity (upward, downward), and the
  physical groups.
\<close>

record physical_group =
  pg_dim :: int
  pg_tag :: int
  pg_entities :: "int list"
  pg_name :: string

record mesh =
  entities :: "(int \<times> int) list"
  adjacencies :: "int \<Rightarrow> int \<Rightarrow> int list \<times> int list"
  physical_groups :: "physical_group list"

definition get_entities :: "mesh \<Rightarrow> int \<Rightarrow> (int \<times> int) list" where
  "get_entities m d = filter (\<lambda>dt. fst dt = d) (entities m)"

definition get_adjacencies :: "mesh \<Rightarrow> int \<Rightarrow> int \<Rightarrow> int list \<times> int list" where
  "get_adjacencies m d tag = adjacencies m d tag"

definition get_physical_groups_for_entity :: "mesh \<Rightarrow> int \<Rightarrow> int \<Rightarrow> int list" where
  "get_physical_groups_for_entity m d tag =
     map pg_tag (filter (\<lambda>g. pg_dim g = d \<and> tag \<in> set (pg_entities g)) (physical_groups m))"

definition get_physical_name :: "mesh \<Rightarrow> int \<Rightarrow> int \<Rightarrow> string" where
  "get_physical_name m d tag =
     (case filter (\<lambda>g. pg_dim g = d \<and> pg_tag g = tag) (physical_groups m) of
        [] \<Rightarrow> []
      | g # _ \<Rightarrow> pg_name g)"

section \<open>make_from_mesh\<close>

text \<open>The dataclass \<open>_Surface\<close> and its method \<open>sense_data\<close>.\<close>

record Surface =
  handle :: handle
  forward_volume :: handle
  reverse_volume :: handle

definition sense_data :: "Surface \<Rightarrow> handle list" where
  "sense_data s = [forward_volume s, reverse_volume s]"

text \<open>The local variables of \<open>make_from_mesh\<close> that the loops update.\<close>

record build_state =
  core :: core
  known_surfaces :: "int \<rightharpoonup> Surface"
  known_groups :: "int \<rightharpoonup> handle"

text \<open>
  The body of \<open>for surface_tag in surface_tags\<close>. For a surface tag not seen before, the
  facets go through a temporary STL file: gmsh writes it from a physical group made for the
  purpose, and MOAB loads it into the new surface set.
\<close>

definition process_surface ::
  "(external_call \<Rightarrow> bool) \<Rightarrow> handle \<Rightarrow> int \<Rightarrow> build_state \<Rightarrow> error + build_state" where
  "process_surface raises volume_set_handle surface_tag st =
     (case known_surfaces st surface_tag of
        None \<Rightarrow>
          (let (surface_set_handle, c1) = create_meshset (core st);
               surface = \<lparr> handle = surface_set_handle,
                           forward_volume = volume_set_handle,
                           reverse_volume = 0 \<rparr>;
               c2 = tag_set_data GlobalId (handle surface) (IntVal surface_tag) c1;
               c3 = tag_set_data GeomDimension (handle surface) (IntVal 2) c2;
               c4 = tag_set_data Category (handle surface) (StrVal ''Surface'') c3;
               c5 = tag_set_data SurfSense (handle surface) (HandleList (sense_data surface)) c4
           in attempt raises TempFile
             (attempt raises AddPhysicalGroup
             (attempt raises Write
             (attempt raises RemovePhysicalGroups
             (attempt raises LoadFile
               (let c6 = load_file surface_tag surface_set_handle c5;
                    c7 = add_parent_child volume_set_handle (handle surface) c6
                in Inr (st\<lparr> core := c7,
                            known_surfaces := (known_surfaces st)(surface_tag \<mapsto> surface) \<rparr>)))))))
      | Some surface0 \<Rightarrow>
          (let surface = surface0\<lparr> reverse_volume := volume_set_handle \<rparr>;
               c1 = tag_set_data SurfSense (handle surface) (HandleList (sense_data surface)) (core st);
               c2 = add_parent_child volume_set_handle (handle surface) c1
           in Inr (st\<lparr> core := c2,
                       known_surfaces := (known_surfaces st)(surface_tag \<mapsto> surface) \<rparr>)))"

fun process_surfaces ::
  "(external_call \<Rightarrow> bool) \<Rightarrow> handle \<Rightarrow> int list \<Rightarrow> build_state \<Rightarrow> error + build_state" where
  "process_surfaces raises volume_set_handle [] st = Inr st"
| "process_surfaces raises volume_set_handle (surface_tag # rest) st =
     (case process_surface raises volume_set_handle surface_tag st of
        Inl e \<Rightarrow> Inl e
      | Inr st' \<Rightarrow> process_surfaces raises volume_set_handle rest st')"

text \<open>The group of a volume: reuse the known group set or create and tag a new one.\<close>

definition assign_group ::
  "(external_call \<Rightarrow> bool) \<Rightarrow> mesh \<Rightarrow> handle \<Rightarrow> int \<Rightarrow> build_state \<Rightarrow> error + build_state" where
  "assign_group raises m volume_set_handle vol_group st =
     (case known_groups st vol_group of
        None \<Rightarrow>
          attempt raises GetPhysicalName
            (let mat_name = get_physical_name m 3 vol_group;
                 (group_set, c1) = create_meshset (core st);
                 c2 = tag_set_data Category group_set (StrVal ''Group'') c1;
                 c3 = tag_set_data Name group_set (StrVal mat_name) c2;
                 c4 = tag_set_data GlobalId group_set (IntVal vol_group) c3;
                 c5 = add_entity group_set (MeshSet volume_set_handle) c4
             in Inr (st\<lparr> core := c5, known_groups := (known_groups st)(vol_group \<mapsto> group_set) \<rparr>))
      | Some group_set \<Rightarrow>
          Inr (st\<lparr> core := add_entity group_set (MeshSet volume_set_handle) (core st) \<rparr>))"

text \<open>The body of \<open>for i, volume_tag in enumerate(volume_tags)\<close>.\<close>

definition process_volume ::
  "(external_call \<Rightarrow> bool) \<Rightarrow> mesh \<Rightarrow> nat \<times> int \<Rightarrow> build_state \<Rightarrow> error + build_state" where
  "process_volume raises m iv st =
     (let i = fst iv; volume_tag = snd iv;
          (volume_set_handle, c1) = create_meshset (core st);
          global_id = volume_set_handle;
          c2 = tag_set_data GlobalId global_id (IntVal (int i)) c1;
          c3 = tag_set_data GeomDimension volume_set_handle (IntVal 3) c2;
          c4 = tag_set_data Category volume_set_handle (StrVal ''Volume'') c3
      in attempt raises GetPhysicalGroupsForEntity
           (let vol_groups = get_physical_groups_for_entity m 3 volume_tag
            in if length vol_groups \<noteq> 1 then Inl ValueError
               else
                 (case assign_group raises m volume_set_handle (vol_groups ! 0) (st\<lparr> core := c4 \<rparr>) of
                    Inl e \<Rightarrow> Inl e
                  | Inr st1 \<Rightarrow>
                      attempt raises GetAdjacencies
                        (let surface_tags = snd (get_adjacencies m 3 volume_tag)
                         in process_surfaces raises volume_set_handle surface_tags st1))))"

fun process_volumes ::
  "(external_call \<Rightarrow> bool) \<Rightarrow> mesh \<Rightarrow> (nat \<times> int) list \<Rightarrow> build_state \<Rightarrow> error + build_state" where
  "process_volumes raises m [] st = Inr st"
| "process_volumes raises m (iv # ivs) st =
     (case process_volume raises m iv st of
        Inl e \<Rightarrow> Inl e
      | Inr st' \<Rightarrow> process_volumes raises m ivs st')"

text \<open>The Python literal \<open>1e-3\<close>.\<close>

definition faceting_tol_value :: real where
  "faceting_tol_value = 1 / 1000"

text \<open>
  The block under \<open>with mesh:\<close>, from the query of the volumes to \<open>return cls(core)\<close>.
  An \<open>MOABModel\<close> is its core. The store is local to the call: when a statement raises,
  no model is returned and the store is lost.
\<close>

definition volume_tags :: "mesh \<Rightarrow> int list" where
  "volume_tags m = map snd (get_entities m 3)"

definition make_from_mesh_body :: "(external_call \<Rightarrow> bool) \<Rightarrow> mesh \<Rightarrow> error + core" where
  "make_from_mesh_body raises m =
     (let st0 = \<lparr> core = new_core, known_surfaces = Map.empty, known_groups = Map.empty \<rparr>
      in attempt raises GetEntities
           (case process_volumes raises m (enumerate 0 (volume_tags m)) st0 of
              Inl e \<Rightarrow> Inl e
            | Inr st \<Rightarrow>
                (let all_entities = get_entities_by_handle (core st);
                     (file_set, c1) = create_meshset (core st);
                     c2 = tag_set_data FacetingTol file_set (DoubleVal faceting_tol_value) c1;
                     c3 = add_entities file_set all_entities c2
                 in Inr c3)))"

section \<open>The gmsh session\<close>

text \<open>
  gmsh is one process-wide engine: it is initialized or not, its FLTK window is open or
  not, and it holds the physical groups of the current model. A call into gmsh may raise;
  which calls do is a parameter \<open>raises\<close> of every operation below.
\<close>

record gmsh =
  initialized :: bool
  fltk :: bool
  groups :: "physical_group list"

type_synonym 'a io = "gmsh \<Rightarrow> (error + 'a) \<times> gmsh"

definition call :: "(external_call \<Rightarrow> bool) \<Rightarrow> external_call \<Rightarrow> (gmsh \<Rightarrow> gmsh) \<Rightarrow> unit io" where
  "call raises k f g = (if raises k then (Inl ExternalError, g) else (Inr (), f g))"

text \<open>One statement after another: an exception skips the rest.\<close>

definition and_then :: "'a io \<Rightarrow> ('a \<Rightarrow> 'b io) \<Rightarrow> 'b io" where
  "and_then a b g = (case a g of (Inl e, g1) \<Rightarrow> (Inl e, g1) | (Inr x, g1) \<Rightarrow> b x g1)"



text \<open>\<open>Mesh.__enter__\<close> and \<open>Mesh.__exit__\<close>.\<close>

definition enter :: "(external_call \<Rightarrow> bool) \<Rightarrow> unit io" where
  "enter raises =
     and_then
       (\<lambda>g. if \<not> initialized g
             then call raises Initialize (\<lambda>g. g\<lparr> initialized := True \<rparr>) g
             else (Inr (), g))
       (\<lambda>_. and_then (call raises SetNumber id) (\<lambda>_. call raises Open id))"

definition exit :: "gmsh \<Rightarrow> gmsh" where
  "exit g = g\<lparr> initialized := False \<rparr>"

text \<open>
  \<open>with mesh: body\<close>. Python runs \<open>__exit__\<close> on every way out of the body, and only if
  \<open>__enter__\<close> returned.
\<close>

definition with_mesh :: "(external_call \<Rightarrow> bool) \<Rightarrow> 'a io \<Rightarrow> 'a io" where
  "with_mesh raises body g =
     (case enter raises g of
        (Inl e, g1) \<Rightarrow> (Inl e, g1)
      | (Inr _, g1) \<Rightarrow> (case body g1 of (r, g2) \<Rightarrow> (r, exit g2)))"

text \<open>
  \<open>MOABModel.make_from_mesh\<close>: \<open>m\<close> is the model the mesh file holds, which the queries
  under \<open>with mesh:\<close> read.
\<close>

definition make_from_mesh :: "(external_call \<Rightarrow> bool) \<Rightarrow> mesh \<Rightarrow> core io" where
  "make_from_mesh raises m = with_mesh raises (\<lambda>g. (make_from_mesh_body raises m, g))"



section \<open>Geometry\<close>

record 'solid Geometry =
  solids :: "'solid list"
  material_names :: "string list"

text \<open>\<open>Geometry.__init__\<close>.\<close>

definition Geometry_init :: "'solid list \<Rightarrow> string list \<Rightarrow> error + 'solid Geometry" where
  "Geometry_init solids' material_names' =
     (if length material_names' \<noteq> length solids' then Inl ValueError
      else Inr \<lparr> solids = solids', material_names = material_names' \<rparr>)"

text \<open>
  \<open>import_step\<close> and \<open>import_brep\<close>; \<open>read filename\<close> stands for the solids that build123d
  finds in the file.
\<close>

definition import_step :: "(string \<Rightarrow> 'solid list) \<Rightarrow> string \<Rightarrow> string list \<Rightarrow> error + 'solid Geometry" where
  "import_step read filename material_names' =
     (let solids' = read filename
      in if length material_names' \<noteq> length solids' then Inl ValueError
         else Geometry_init solids' material_names')"

definition import_brep :: "(string \<Rightarrow> 'solid list) \<Rightarrow> string \<Rightarrow> string list \<Rightarrow> error + 'solid Geometry" where
  "import_brep read filename material_names' =
     (let solids' = read filename
      in if length material_names' \<noteq> length solids' then Inl ValueError
         else Geometry_init solids' material_names')"

section \<open>mesh_geometry\<close>






section \<open>Notions used in the proofs\<close>

subsection \<open>The steps of one pass\<close>

text \<open>
  What the statements of a pass do to the store and the two dictionaries when every call
  returns: the body of the loop over the surfaces, the choice of the group, and the first
  statements of a pass of the volume loop (the new volume set and its three tags).
\<close>

definition surface_pass :: "handle \<Rightarrow> int \<Rightarrow> build_state \<Rightarrow> build_state" where
  "surface_pass volume_set_handle surface_tag st =
     (case known_surfaces st surface_tag of
        None \<Rightarrow>
          (let (surface_set_handle, c1) = create_meshset (core st);
               surface = \<lparr> handle = surface_set_handle,
                           forward_volume = volume_set_handle,
                           reverse_volume = 0 \<rparr>;
               c2 = tag_set_data GlobalId (handle surface) (IntVal surface_tag) c1;
               c3 = tag_set_data GeomDimension (handle surface) (IntVal 2) c2;
               c4 = tag_set_data Category (handle surface) (StrVal ''Surface'') c3;
               c5 = tag_set_data SurfSense (handle surface) (HandleList (sense_data surface)) c4;
               c6 = load_file surface_tag surface_set_handle c5;
               c7 = add_parent_child volume_set_handle (handle surface) c6
           in st\<lparr> core := c7,
                  known_surfaces := (known_surfaces st)(surface_tag \<mapsto> surface) \<rparr>)
      | Some surface0 \<Rightarrow>
          (let surface = surface0\<lparr> reverse_volume := volume_set_handle \<rparr>;
               c1 = tag_set_data SurfSense (handle surface) (HandleList (sense_data surface)) (core st);
               c2 = add_parent_child volume_set_handle (handle surface) c1
           in st\<lparr> core := c2,
                  known_surfaces := (known_surfaces st)(surface_tag \<mapsto> surface) \<rparr>))"

definition group_pass :: "mesh \<Rightarrow> handle \<Rightarrow> int \<Rightarrow> build_state \<Rightarrow> build_state" where
  "group_pass m volume_set_handle vol_group st =
     (case known_groups st vol_group of
        None \<Rightarrow>
          (let mat_name = get_physical_name m 3 vol_group;
               (group_set, c1) = create_meshset (core st);
               c2 = tag_set_data Category group_set (StrVal ''Group'') c1;
               c3 = tag_set_data Name group_set (StrVal mat_name) c2;
               c4 = tag_set_data GlobalId group_set (IntVal vol_group) c3;
               c5 = add_entity group_set (MeshSet volume_set_handle) c4
           in st\<lparr> core := c5, known_groups := (known_groups st)(vol_group \<mapsto> group_set) \<rparr>)
      | Some group_set \<Rightarrow>
          st\<lparr> core := add_entity group_set (MeshSet volume_set_handle) (core st) \<rparr>)"

definition new_volume :: "nat \<Rightarrow> build_state \<Rightarrow> build_state" where
  "new_volume i st =
     st\<lparr> core :=
          tag_set_data Category (Suc (n_sets (core st))) (StrVal ''Volume'')
            (tag_set_data GeomDimension (Suc (n_sets (core st))) (IntVal 3)
              (tag_set_data GlobalId (Suc (n_sets (core st))) (IntVal (int i))
                ((core st)\<lparr> n_sets := Suc (n_sets (core st)) \<rparr>))) \<rparr>"

definition volume_pass :: "mesh \<Rightarrow> nat \<times> int \<Rightarrow> build_state \<Rightarrow> build_state" where
  "volume_pass m iv st =
     fold (surface_pass (Suc (n_sets (core st)))) (snd (get_adjacencies m 3 (snd iv)))
       (group_pass m (Suc (n_sets (core st))) (get_physical_groups_for_entity m 3 (snd iv) ! 0)
          (new_volume (fst iv) st))"

text \<open>The statements after the volume loop: the file set.\<close>

definition finish :: "core \<Rightarrow> core" where
  "finish c =
     add_entities (Suc (n_sets c)) (get_entities_by_handle c)
       (tag_set_data FacetingTol (Suc (n_sets c)) (DoubleVal faceting_tol_value)
          (c\<lparr> n_sets := Suc (n_sets c) \<rparr>))"

definition initial_state :: build_state where
  "initial_state = \<lparr> core = new_core, known_surfaces = Map.empty, known_groups = Map.empty \<rparr>"

subsection \<open>Invariants of the store\<close>

text \<open>Only sets that exist carry tags, and the known surfaces are sets that exist.\<close>

definition tags_bounded :: "core \<Rightarrow> bool" where
  "tags_bounded c \<longleftrightarrow> (\<forall>t h. tag_get_data c t h \<noteq> None \<longrightarrow> 1 \<le> h \<and> h \<le> n_sets c)"

definition handles_bounded :: "build_state \<Rightarrow> bool" where
  "handles_bounded st \<longleftrightarrow>
     tags_bounded (core st) \<and>
     (\<forall>s r. known_surfaces st s = Some r \<longrightarrow> 1 \<le> handle r \<and> handle r \<le> n_sets (core st))"

text \<open>
  From \<open>c\<close> to \<open>c'\<close> sets were only added, and no tag of an existing set other than its
  sense changed.
\<close>

definition grows :: "core \<Rightarrow> core \<Rightarrow> bool" where
  "grows c c' \<longleftrightarrow>
     n_sets c \<le> n_sets c' \<and>
     (\<forall>t x. x \<le> n_sets c \<longrightarrow> t \<noteq> SurfSense \<longrightarrow> tag_get_data c' t x = tag_get_data c t x)"

text \<open>The store holds \<open>K\<close> volumes, numbered in creation order.\<close>

definition vol_ids :: "nat \<Rightarrow> core \<Rightarrow> bool" where
  "vol_ids K c \<longleftrightarrow>
     length (volumes c) = K \<and>
     (\<forall>i<K. tag_get_data c GlobalId (volumes c ! i) = Some (IntVal (int i)) \<and>
            tag_get_data c Category (volumes c ! i) = Some (StrVal ''Volume''))"

definition vol_inv :: "int list \<Rightarrow> build_state \<Rightarrow> bool" where
  "vol_inv pre st \<longleftrightarrow> handles_bounded st \<and> vol_ids (length pre) (core st)"

section \<open>Example inputs\<close>

text \<open>A session in which gmsh is not initialized, and a gmsh none of whose calls raises.\<close>

definition idle :: gmsh where
  "idle = \<lparr> initialized = False, fltk = False, groups = [] \<rparr>"

definition no_raise :: "external_call \<Rightarrow> bool" where
  "no_raise k = False"

text \<open>One sphere of iron: volume 1, bounded by surface 1.\<close>

definition sphere_mesh :: mesh where
  "sphere_mesh =
     \<lparr> entities = [(2, 1), (3, 1)],
       adjacencies = (\<lambda>d t. if d = 3 \<and> t = 1 then ([], [1]) else ([], [])),
       physical_groups =
         [\<lparr> pg_dim = 3, pg_tag = 1, pg_entities = [1], pg_name = ''mat:iron'' \<rparr>] \<rparr>"

text \<open>The same sphere with no physical group.\<close>

definition ungrouped_mesh :: mesh where
  "ungrouped_mesh = sphere_mesh\<lparr> physical_groups := [] \<rparr>"

text \<open>
  Two volumes of different materials: volume 1 is bounded by surfaces 1 and 2, volume 2 by
  surfaces 2 and 3, so surface 2 is shared.
\<close>

definition two_volume_mesh :: mesh where
  "two_volume_mesh =
     \<lparr> entities = [(2, 1), (2, 2), (2, 3), (3, 1), (3, 2)],
       adjacencies = (\<lambda>d t. if d = 3 \<and> t = 1 then ([], [1, 2])
                            else if d = 3 \<and> t = 2 then ([], [2, 3]) else ([], [])),
       physical_groups =
         [\<lparr> pg_dim = 3, pg_tag = 1, pg_entities = [1], pg_name = ''mat:iron'' \<rparr>,
          \<lparr> pg_dim = 3, pg_tag = 2, pg_entities = [2], pg_name = ''mat:lead'' \<rparr>] \<rparr>"

text \<open>Three volumes of one material that all list surface 7.\<close>

definition three_volume_mesh :: mesh where
  "three_volume_mesh =
     \<lparr> entities = [(2, 7), (3, 1), (3, 2), (3, 3)],
       adjacencies = (\<lambda>d t. if d = 3 then ([], [7]) else ([], [])),
       physical_groups =
         [\<lparr> pg_dim = 3, pg_tag = 1, pg_entities = [1, 2, 3], pg_name = ''mat:iron'' \<rparr>] \<rparr>"

subsection \<open>Surfaces, groups and relations\<close>

text \<open>
  Every known surface is a set tagged as a Surface, with the surface tag of the mesh as
  its global id and with the sense pair of its record; and every set of dimension 2 is
  the set of a known surface.
\<close>

definition surf_tags_ok :: "build_state \<Rightarrow> bool" where
  "surf_tags_ok st \<longleftrightarrow>
     (\<forall>s r. known_surfaces st s = Some r \<longrightarrow>
        tag_get_data (core st) GeomDimension (handle r) = Some (IntVal 2) \<and>
        tag_get_data (core st) GlobalId (handle r) = Some (IntVal s) \<and>
        tag_get_data (core st) Category (handle r) = Some (StrVal ''Surface'') \<and>
        tag_get_data (core st) SurfSense (handle r) =
          Some (HandleList [forward_volume r, reverse_volume r])) \<and>
     (\<forall>h \<in> set (surfaces (core st)). \<exists>s r. known_surfaces st s = Some r \<and> handle r = h)"

text \<open>The elements of a list in the order of their first occurrence.\<close>

definition first_seen :: "'a list \<Rightarrow> 'a list" where
  "first_seen xs = rev (remdups (rev xs))"

text \<open>Only sets that exist have children, and the children are sets of known surfaces.\<close>

definition children_known :: "build_state \<Rightarrow> bool" where
  "children_known st \<longleftrightarrow>
     (\<forall>p h. h \<in> set (children (core st) p) \<longrightarrow>
        1 \<le> p \<and> p \<le> n_sets (core st) \<and>
        (\<exists>s r. known_surfaces st s = Some r \<and> handle r = h))"

text \<open>The two relation tables agree.\<close>

definition links_ok :: "core \<Rightarrow> bool" where
  "links_ok c \<longleftrightarrow> (\<forall>p h. h \<in> set (children c p) \<longleftrightarrow> p \<in> set (parents c h))"

text \<open>
  The children of the volume set \<open>vh\<close> are the sets of the surface tags \<open>seen\<close>, in the
  order of their first occurrence.
\<close>

definition children_of :: "handle \<Rightarrow> int list \<Rightarrow> build_state \<Rightarrow> bool" where
  "children_of vh seen st \<longleftrightarrow>
     map (tag_get_data (core st) GlobalId) (children (core st) vh) =
       map (\<lambda>s. Some (IntVal s)) (first_seen seen)"

text \<open>
  Every known group is a set tagged as a Group, named as the physical group of the mesh
  is, with the id of the physical group as its global id.
\<close>

definition groups_ok :: "mesh \<Rightarrow> build_state \<Rightarrow> bool" where
  "groups_ok m st \<longleftrightarrow>
     (\<forall>g gh. known_groups st g = Some gh \<longrightarrow>
        1 \<le> gh \<and> gh \<le> n_sets (core st) \<and>
        tag_get_data (core st) Category gh = Some (StrVal ''Group'') \<and>
        tag_get_data (core st) Name gh = Some (StrVal (get_physical_name m 3 g)) \<and>
        tag_get_data (core st) GlobalId gh = Some (IntVal g))"

text \<open>The volume set \<open>vh\<close> is in the group set of the physical group of the mesh volume \<open>v\<close>.\<close>

definition member_of :: "mesh \<Rightarrow> int \<Rightarrow> handle \<Rightarrow> build_state \<Rightarrow> bool" where
  "member_of m v vh st \<longleftrightarrow>
     (\<exists>gh. known_groups st (get_physical_groups_for_entity m 3 v ! 0) = Some gh \<and>
           MeshSet vh \<in> set (contents (core st) gh))"

text \<open>
  After the passes for the mesh volumes \<open>pre\<close>: the \<open>i\<close>-th volume set is in the group of
  the \<open>i\<close>-th mesh volume and has the surfaces of that mesh volume as its children.
\<close>

definition model_inv :: "mesh \<Rightarrow> int list \<Rightarrow> build_state \<Rightarrow> bool" where
  "model_inv m pre st \<longleftrightarrow>
     vol_inv pre st \<and> surf_tags_ok st \<and> children_known st \<and> links_ok (core st) \<and>
     groups_ok m st \<and>
     (\<forall>i < length pre.
        member_of m (pre ! i) (volumes (core st) ! i) st \<and>
        children_of (volumes (core st) ! i) (snd (get_adjacencies m 3 (pre ! i))) st)"

text \<open>
  During the volume loop no set carries the tolerance tag, and only sets that exist have
  contents.
\<close>

definition store_clean :: "build_state \<Rightarrow> bool" where
  "store_clean st \<longleftrightarrow>
     (\<forall>h. tag_get_data (core st) FacetingTol h = None) \<and>
     (\<forall>h. n_sets (core st) < h \<longrightarrow> contents (core st) h = [])"

subsection \<open>Encounters of surface tags\<close>

text \<open>
  The sweep of the two loops meets the pairs (position of the volume, surface tag) in this
  order; \<open>positions E s\<close> lists the volume positions at which \<open>s\<close> is met.
\<close>

definition encounters :: "mesh \<Rightarrow> int list \<Rightarrow> (nat \<times> int) list" where
  "encounters m vts =
     concat (map (\<lambda>iv. map (Pair (fst iv)) (snd (get_adjacencies m 3 (snd iv)))) (enumerate 0 vts))"

definition positions :: "(nat \<times> int) list \<Rightarrow> int \<Rightarrow> nat list" where
  "positions E s = map fst (filter (\<lambda>p. snd p = s) E)"

definition encounter_positions :: "mesh \<Rightarrow> int \<Rightarrow> nat list" where
  "encounter_positions m s = positions (encounters m (volume_tags m)) s"

text \<open>The positions, in mesh order, of the volumes whose adjacency list names \<open>s\<close>.\<close>

definition adjacent_positions :: "mesh \<Rightarrow> int \<Rightarrow> nat list" where
  "adjacent_positions m s =
     filter (\<lambda>i. s \<in> set (snd (get_adjacencies m 3 (volume_tags m ! i))))
       [0 ..< length (volume_tags m)]"

text \<open>
  The sense pair after encounters at the positions \<open>e\<close>: the volume of the first, and the
  volume of the last unless there was only one.
\<close>

definition sense_of :: "handle list \<Rightarrow> nat list \<Rightarrow> handle list" where
  "sense_of vols e = [vols ! hd e, if length e = 1 then 0 else vols ! last e]"

definition sense_ok :: "(nat \<times> int) list \<Rightarrow> build_state \<Rightarrow> bool" where
  "sense_ok E st \<longleftrightarrow>
     (\<forall>p \<in> set E. fst p < length (volumes (core st))) \<and>
     (\<forall>s. known_surfaces st s = None \<longrightarrow> positions E s = []) \<and>
     (\<forall>s r. known_surfaces st s = Some r \<longrightarrow>
        positions E s \<noteq> [] \<and> sense_data r = sense_of (volumes (core st)) (positions E s))"

text \<open>
  The facets were loaded once for each surface tag met, in the order of first encounter,
  each batch into the set of its surface.
\<close>

definition loads_ok :: "(nat \<times> int) list \<Rightarrow> build_state \<Rightarrow> bool" where
  "loads_ok E st \<longleftrightarrow>
     map fst (loaded (core st)) = first_seen (map snd E) \<and>
     (\<forall>p \<in> set (loaded (core st)). \<exists>r. known_surfaces st (fst p) = Some r \<and> handle r = snd p) \<and>
     (\<forall>i < length (loaded (core st)).
        FacetBatch i \<in> set (contents (core st) (snd (loaded (core st) ! i))))"

text \<open>Every write of the sense tag so far stored a pair.\<close>

definition sense_writes :: "core \<Rightarrow> tag_value list" where
  "sense_writes c = map snd (filter (\<lambda>e. fst (fst e) = SurfSense) (tag_data c))"

definition writes_ok :: "core \<Rightarrow> bool" where
  "writes_ok c \<longleftrightarrow> (\<forall>v \<in> set (sense_writes c). \<exists>f r. v = HandleList [f, r])"

text \<open>Every set tagged as a Group is the set of a known group.\<close>

definition groups_complete :: "build_state \<Rightarrow> bool" where
  "groups_complete st \<longleftrightarrow>
     (\<forall>h. tag_get_data (core st) Category h = Some (StrVal ''Group'') \<longrightarrow>
          (\<exists>g. known_groups st g = Some h))"

definition full_inv :: "mesh \<Rightarrow> int list \<Rightarrow> build_state \<Rightarrow> bool" where
  "full_inv m pre st \<longleftrightarrow>
     model_inv m pre st \<and> sense_ok (encounters m pre) st \<and> loads_ok (encounters m pre) st \<and>
     writes_ok (core st) \<and> groups_complete st"



section \<open>Lemmas\<close>

subsection \<open>The store operations, observation by observation\<close>

lemma n_sets_simps [simp]:
  "n_sets (tag_set_data t h v c) = n_sets c"
  "n_sets (add_entity s e c) = n_sets c"
  "n_sets (add_parent_child p ch c) = n_sets c"
  "n_sets (load_file tg h c) = n_sets c"
  by (simp_all add: tag_set_data_def add_entity_def add_parent_child_def load_file_def)

lemma tag_get_data_set [simp]:
  "tag_get_data (tag_set_data t h v c) t' h' =
     (if t' = t \<and> h' = h then Some v else tag_get_data c t' h')"
  by (simp add: tag_get_data_def tag_set_data_def)

lemma tag_get_data_frame [simp]:
  "tag_get_data (add_entity s e c) = tag_get_data c"
  "tag_get_data (add_parent_child p ch c) = tag_get_data c"
  "tag_get_data (load_file tg h c) = tag_get_data c"
  "tag_get_data (c\<lparr> n_sets := k \<rparr>) = tag_get_data c"
  by (simp_all add: fun_eq_iff tag_get_data_def add_entity_def add_parent_child_def load_file_def)

lemma frame_simps [simp]:
  "loaded (tag_set_data t h v c) = loaded c"
  "loaded (add_entity s e c) = loaded c"
  "loaded (add_parent_child p ch c) = loaded c"
  "loaded (load_file tg h c) = loaded c @ [(tg, h)]"
  "contents (tag_set_data t h v c) = contents c"
  "contents (add_parent_child p ch c) = contents c"
  "contents (add_entity s e c) = (contents c)(s := List.insert e (contents c s))"
  "contents (load_file tg h c) =
     (contents c)(h := List.insert (FacetBatch (length (loaded c))) (contents c h))"
  "children (tag_set_data t h v c) = children c"
  "children (add_entity s e c) = children c"
  "children (load_file tg h c) = children c"
  "parents (tag_set_data t h v c) = parents c"
  "parents (add_entity s e c) = parents c"
  "parents (load_file tg h c) = parents c"
  "tag_data (add_entity s e c) = tag_data c"
  "tag_data (add_parent_child p ch c) = tag_data c"
  "tag_data (load_file tg h c) = tag_data c"
  "tag_data (tag_set_data t h v c) = ((t, h), v) # tag_data c"
  by (simp_all add: tag_set_data_def add_entity_def add_parent_child_def load_file_def)

lemma children_add_parent_child:
  "children (add_parent_child p ch c) =
     (children c)(p := children c p @ (if ch \<in> set (children c p) then [] else [ch]))"
  by (simp add: add_parent_child_def)

lemma parents_add_parent_child:
  "parents (add_parent_child p ch c) =
     (parents c)(ch := parents c ch @ (if p \<in> set (parents c ch) then [] else [p]))"
  by (simp add: add_parent_child_def)

subsection \<open>The steps of the build as compositions of store operations\<close>

lemma surface_pass_None_eq:
  assumes "known_surfaces st s = None"
  shows "surface_pass vh s st =
    st\<lparr> core :=
          add_parent_child vh (Suc (n_sets (core st)))
            (load_file s (Suc (n_sets (core st)))
              (tag_set_data SurfSense (Suc (n_sets (core st))) (HandleList [vh, 0])
                (tag_set_data Category (Suc (n_sets (core st))) (StrVal ''Surface'')
                  (tag_set_data GeomDimension (Suc (n_sets (core st))) (IntVal 2)
                    (tag_set_data GlobalId (Suc (n_sets (core st))) (IntVal s)
                      ((core st)\<lparr> n_sets := Suc (n_sets (core st)) \<rparr>)))))),
         known_surfaces := (known_surfaces st)(s \<mapsto>
            \<lparr> handle = Suc (n_sets (core st)), forward_volume = vh, reverse_volume = 0 \<rparr>) \<rparr>"
  using assms
  by (simp add: surface_pass_def create_meshset_def sense_data_def)

lemma surface_pass_Some_eq:
  assumes "known_surfaces st s = Some r"
  shows "surface_pass vh s st =
    st\<lparr> core :=
          add_parent_child vh (handle r)
            (tag_set_data SurfSense (handle r) (HandleList [forward_volume r, vh]) (core st)),
         known_surfaces := (known_surfaces st)(s \<mapsto> r\<lparr> reverse_volume := vh \<rparr>) \<rparr>"
  using assms
  by (simp add: surface_pass_def sense_data_def)

lemma group_pass_None_eq:
  assumes "known_groups st g = None"
  shows "group_pass m vh g st =
    st\<lparr> core :=
          add_entity (Suc (n_sets (core st))) (MeshSet vh)
            (tag_set_data GlobalId (Suc (n_sets (core st))) (IntVal g)
              (tag_set_data Name (Suc (n_sets (core st))) (StrVal (get_physical_name m 3 g))
                (tag_set_data Category (Suc (n_sets (core st))) (StrVal ''Group'')
                  ((core st)\<lparr> n_sets := Suc (n_sets (core st)) \<rparr>)))),
         known_groups := (known_groups st)(g \<mapsto> Suc (n_sets (core st))) \<rparr>"
  using assms
  by (simp add: group_pass_def create_meshset_def)

lemma group_pass_Some_eq:
  assumes "known_groups st g = Some gh"
  shows "group_pass m vh g st = st\<lparr> core := add_entity gh (MeshSet vh) (core st) \<rparr>"
  using assms
  by (simp add: group_pass_def)

text \<open>The fallible steps: an external call raises, or the step does what its pass does.\<close>

lemma process_surface_eq:
  "process_surface raises vh s st =
     (if known_surfaces st s = None \<and>
         (raises TempFile \<or> raises AddPhysicalGroup \<or> raises Write \<or>
          raises RemovePhysicalGroups \<or> raises LoadFile)
      then Inl ExternalError else Inr (surface_pass vh s st))"
  by (simp add: process_surface_def surface_pass_def attempt_def create_meshset_def Let_def
      split: option.splits)

lemma process_surfaces_Inr:
  "process_surfaces raises vh ss st = Inr st' \<Longrightarrow> st' = fold (surface_pass vh) ss st"
  by (induction ss arbitrary: st) (auto simp: process_surface_eq split: if_splits)

lemma process_surfaces_Inl:
  "process_surfaces raises vh ss st = Inl e \<Longrightarrow> e = ExternalError \<and> (\<exists>k. raises k)"
  by (induction ss arbitrary: st) (auto simp: process_surface_eq split: if_splits)

lemma process_surfaces_no_raise:
  "\<forall>k. \<not> raises k \<Longrightarrow> process_surfaces raises vh ss st = Inr (fold (surface_pass vh) ss st)"
  by (induction ss arbitrary: st) (auto simp: process_surface_eq)

lemma assign_group_eq:
  "assign_group raises m vh g st =
     (if known_groups st g = None \<and> raises GetPhysicalName then Inl ExternalError
      else Inr (group_pass m vh g st))"
  by (simp add: assign_group_def group_pass_def attempt_def create_meshset_def Let_def
      split: option.splits)

lemma process_volume_eq:
  "process_volume raises m (i, v) st =
     attempt raises GetPhysicalGroupsForEntity
       (if length (get_physical_groups_for_entity m 3 v) \<noteq> 1 then Inl ValueError
        else case assign_group raises m (Suc (n_sets (core st)))
                    (get_physical_groups_for_entity m 3 v ! 0) (new_volume i st) of
               Inl e \<Rightarrow> Inl e
             | Inr st1 \<Rightarrow>
                 attempt raises GetAdjacencies
                   (process_surfaces raises (Suc (n_sets (core st)))
                      (snd (get_adjacencies m 3 v)) st1))"
  by (simp add: process_volume_def create_meshset_def new_volume_def Let_def
      split: sum.splits)

lemma process_volume_Inr:
  assumes "process_volume raises m (i, v) st = Inr st'"
  shows "length (get_physical_groups_for_entity m 3 v) = 1" and "st' = volume_pass m (i, v) st"
  using assms
  by (auto simp: process_volume_eq attempt_def assign_group_eq volume_pass_def
      split: if_splits sum.splits dest: process_surfaces_Inr)

lemma process_volume_Inl:
  assumes "process_volume raises m (i, v) st = Inl e"
  shows "e = ValueError \<and> length (get_physical_groups_for_entity m 3 v) \<noteq> 1 \<or>
         e = ExternalError \<and> (\<exists>k. raises k)"
  using assms
  by (auto simp: process_volume_eq attempt_def assign_group_eq
      split: if_splits sum.splits dest: process_surfaces_Inl)

lemma process_volume_bad:
  assumes "length (get_physical_groups_for_entity m 3 v) \<noteq> 1"
  shows "\<exists>e. process_volume raises m (i, v) st = Inl e"
  using assms by (simp add: process_volume_eq attempt_def)

lemma process_volume_no_raise:
  assumes "\<forall>k. \<not> raises k"
  shows "process_volume raises m (i, v) st =
           (if length (get_physical_groups_for_entity m 3 v) \<noteq> 1 then Inl ValueError
            else Inr (volume_pass m (i, v) st))"
  using assms
  by (simp add: process_volume_eq attempt_def assign_group_eq volume_pass_def
      process_surfaces_no_raise)

lemma surface_pass_new:
  fixes vh :: handle and s :: int and st :: build_state
  assumes "known_surfaces st s = None"
  shows "n_sets (core (surface_pass vh s st)) = Suc (n_sets (core st))"
    and "known_surfaces (surface_pass vh s st) =
           (known_surfaces st)(s \<mapsto> \<lparr> handle = Suc (n_sets (core st)), forward_volume = vh, reverse_volume = 0 \<rparr>)"
    and "known_groups (surface_pass vh s st) = known_groups st"
    and "loaded (core (surface_pass vh s st)) = loaded (core st) @ [(s, Suc (n_sets (core st)))]"
    and "contents (core (surface_pass vh s st)) =
           (contents (core st))(Suc (n_sets (core st)) :=
              List.insert (FacetBatch (length (loaded (core st)))) (contents (core st) (Suc (n_sets (core st)))))"
    and "children (core (surface_pass vh s st)) =
           (children (core st))(vh := children (core st) vh @
              (if Suc (n_sets (core st)) \<in> set (children (core st) vh) then [] else [Suc (n_sets (core st))]))"
    and "parents (core (surface_pass vh s st)) =
           (parents (core st))(Suc (n_sets (core st)) := parents (core st) (Suc (n_sets (core st))) @
              (if vh \<in> set (parents (core st) (Suc (n_sets (core st)))) then [] else [vh]))"
  by (simp_all add: surface_pass_None_eq [OF assms]
      children_add_parent_child parents_add_parent_child)

lemma surface_pass_new_tag:
  assumes "known_surfaces st s = None"
  shows "x \<noteq> Suc (n_sets (core st)) \<Longrightarrow>
           tag_get_data (core (surface_pass vh s st)) t x = tag_get_data (core st) t x"
    and "tag_get_data (core (surface_pass vh s st)) SurfSense (Suc (n_sets (core st))) = Some (HandleList [vh, 0])"
    and "tag_get_data (core (surface_pass vh s st)) Category (Suc (n_sets (core st))) = Some (StrVal ''Surface'')"
    and "tag_get_data (core (surface_pass vh s st)) GeomDimension (Suc (n_sets (core st))) = Some (IntVal 2)"
    and "tag_get_data (core (surface_pass vh s st)) GlobalId (Suc (n_sets (core st))) = Some (IntVal s)"
    and "tag_get_data (core (surface_pass vh s st)) Name x = tag_get_data (core st) Name x"
    and "tag_get_data (core (surface_pass vh s st)) FacetingTol x = tag_get_data (core st) FacetingTol x"
  by (simp_all add: surface_pass_None_eq [OF assms])

lemma surface_pass_known:
  fixes vh :: handle and s :: int and st :: build_state
  assumes "known_surfaces st s = Some r"
  shows "n_sets (core (surface_pass vh s st)) = n_sets (core st)"
    and "known_surfaces (surface_pass vh s st) = (known_surfaces st)(s \<mapsto> r\<lparr> reverse_volume := vh \<rparr>)"
    and "known_groups (surface_pass vh s st) = known_groups st"
    and "loaded (core (surface_pass vh s st)) = loaded (core st)"
    and "contents (core (surface_pass vh s st)) = contents (core st)"
    and "children (core (surface_pass vh s st)) =
           (children (core st))(vh := children (core st) vh @
              (if handle r \<in> set (children (core st) vh) then [] else [handle r]))"
    and "parents (core (surface_pass vh s st)) =
           (parents (core st))(handle r := parents (core st) (handle r) @
              (if vh \<in> set (parents (core st) (handle r)) then [] else [vh]))"
  by (simp_all add: surface_pass_Some_eq [OF assms]
      children_add_parent_child parents_add_parent_child)

lemma surface_pass_known_tag:
  assumes "known_surfaces st s = Some r"
  shows "x \<noteq> handle r \<Longrightarrow>
           tag_get_data (core (surface_pass vh s st)) t x = tag_get_data (core st) t x"
    and "t \<noteq> SurfSense \<Longrightarrow>
           tag_get_data (core (surface_pass vh s st)) t x = tag_get_data (core st) t x"
    and "tag_get_data (core (surface_pass vh s st)) SurfSense (handle r) =
           Some (HandleList [forward_volume r, vh])"
  by (simp_all add: surface_pass_Some_eq [OF assms])

lemma new_volume_obs:
  shows "n_sets (core (new_volume i st)) = Suc (n_sets (core st))"
    and "known_surfaces (new_volume i st) = known_surfaces st"
    and "known_groups (new_volume i st) = known_groups st"
    and "loaded (core (new_volume i st)) = loaded (core st)"
    and "contents (core (new_volume i st)) = contents (core st)"
    and "children (core (new_volume i st)) = children (core st)"
    and "parents (core (new_volume i st)) = parents (core st)"
  by (simp_all add: new_volume_def)

lemma new_volume_tag:
  shows "x \<noteq> Suc (n_sets (core st)) \<Longrightarrow>
           tag_get_data (core (new_volume i st)) t x = tag_get_data (core st) t x"
    and "tag_get_data (core (new_volume i st)) Category (Suc (n_sets (core st))) = Some (StrVal ''Volume'')"
    and "tag_get_data (core (new_volume i st)) GeomDimension (Suc (n_sets (core st))) = Some (IntVal 3)"
    and "tag_get_data (core (new_volume i st)) GlobalId (Suc (n_sets (core st))) = Some (IntVal (int i))"
    and "tag_get_data (core (new_volume i st)) Name x = tag_get_data (core st) Name x"
    and "tag_get_data (core (new_volume i st)) FacetingTol x = tag_get_data (core st) FacetingTol x"
    and "tag_get_data (core (new_volume i st)) SurfSense x = tag_get_data (core st) SurfSense x"
  by (simp_all add: new_volume_def)

lemma group_pass_new:
  fixes vh :: handle and g :: int and st :: build_state
  assumes "known_groups st g = None"
  shows "n_sets (core (group_pass m vh g st)) = Suc (n_sets (core st))"
    and "known_surfaces (group_pass m vh g st) = known_surfaces st"
    and "known_groups (group_pass m vh g st) = (known_groups st)(g \<mapsto> Suc (n_sets (core st)))"
    and "loaded (core (group_pass m vh g st)) = loaded (core st)"
    and "contents (core (group_pass m vh g st)) =
           (contents (core st))(Suc (n_sets (core st)) :=
              List.insert (MeshSet vh) (contents (core st) (Suc (n_sets (core st)))))"
    and "children (core (group_pass m vh g st)) = children (core st)"
    and "parents (core (group_pass m vh g st)) = parents (core st)"
  by (simp_all add: group_pass_None_eq [OF assms])

lemma group_pass_new_tag:
  assumes "known_groups st g = None"
  shows "x \<noteq> Suc (n_sets (core st)) \<Longrightarrow>
           tag_get_data (core (group_pass m vh g st)) t x = tag_get_data (core st) t x"
    and "tag_get_data (core (group_pass m vh g st)) Category (Suc (n_sets (core st))) = Some (StrVal ''Group'')"
    and "tag_get_data (core (group_pass m vh g st)) Name (Suc (n_sets (core st))) =
           Some (StrVal (get_physical_name m 3 g))"
    and "tag_get_data (core (group_pass m vh g st)) GlobalId (Suc (n_sets (core st))) = Some (IntVal g)"
    and "tag_get_data (core (group_pass m vh g st)) GeomDimension x = tag_get_data (core st) GeomDimension x"
    and "tag_get_data (core (group_pass m vh g st)) FacetingTol x = tag_get_data (core st) FacetingTol x"
    and "tag_get_data (core (group_pass m vh g st)) SurfSense x = tag_get_data (core st) SurfSense x"
  by (simp_all add: group_pass_None_eq [OF assms])

lemma group_pass_known:
  fixes vh :: handle and g :: int and st :: build_state
  assumes "known_groups st g = Some gh"
  shows "n_sets (core (group_pass m vh g st)) = n_sets (core st)"
    and "known_surfaces (group_pass m vh g st) = known_surfaces st"
    and "known_groups (group_pass m vh g st) = known_groups st"
    and "loaded (core (group_pass m vh g st)) = loaded (core st)"
    and "contents (core (group_pass m vh g st)) =
           (contents (core st))(gh := List.insert (MeshSet vh) (contents (core st) gh))"
    and "children (core (group_pass m vh g st)) = children (core st)"
    and "parents (core (group_pass m vh g st)) = parents (core st)"
    and "tag_get_data (core (group_pass m vh g st)) t x = tag_get_data (core st) t x"
  by (simp_all add: group_pass_Some_eq [OF assms])

lemma tags_bounded_fresh:
  assumes "tags_bounded c" and "n_sets c < h"
  shows "tag_get_data c t h = None"
proof (rule ccontr)
  assume "tag_get_data c t h \<noteq> None"
  with assms(1) have "h \<le> n_sets c" unfolding tags_bounded_def by blast
  with assms(2) show False by simp
qed

lemma grows_refl: "grows c c"
  by (simp add: grows_def)

lemma grows_trans: "grows c c' \<Longrightarrow> grows c' c'' \<Longrightarrow> grows c c''"
  by (auto simp: grows_def)

lemma grows_surface_pass: "grows (core st) (core (surface_pass vh s st))"
proof (cases "known_surfaces st s")
  case None
  show ?thesis
    unfolding grows_def
    by (simp add: surface_pass_new [OF None] surface_pass_new_tag(1) [OF None])
next
  case (Some r)
  show ?thesis
    unfolding grows_def
    by (simp add: surface_pass_known [OF Some] surface_pass_known_tag(2) [OF Some])
qed

lemma grows_new_volume: "grows (core st) (core (new_volume i st))"
  unfolding grows_def by (simp add: new_volume_obs new_volume_tag(1))

lemma grows_group_pass: "grows (core st) (core (group_pass m vh g st))"
proof (cases "known_groups st g")
  case None
  show ?thesis
    unfolding grows_def
    by (simp add: group_pass_new [OF None] group_pass_new_tag(1) [OF None])
next
  case (Some gh)
  show ?thesis
    unfolding grows_def by (simp add: group_pass_known [OF Some])
qed

lemma handles_bounded_surface_pass:
  assumes "handles_bounded st"
  shows "handles_bounded (surface_pass vh s st)"
proof (cases "known_surfaces st s")
  case None
  have tb: "tags_bounded (core (surface_pass vh s st))"
    unfolding tags_bounded_def
  proof (intro allI impI)
    fix t h
    assume a: "tag_get_data (core (surface_pass vh s st)) t h \<noteq> None"
    show "1 \<le> h \<and> h \<le> n_sets (core (surface_pass vh s st))"
    proof (cases "h = Suc (n_sets (core st))")
      case True
      then show ?thesis by (simp add: surface_pass_new(1) [OF None])
    next
      case False
      with a have "tag_get_data (core st) t h \<noteq> None"
        by (simp add: surface_pass_new_tag(1) [OF None])
      with assms have "1 \<le> h \<and> h \<le> n_sets (core st)"
        by (simp add: handles_bounded_def tags_bounded_def)
      then show ?thesis by (simp add: surface_pass_new(1) [OF None])
    qed
  qed
  moreover have "\<forall>s' r. known_surfaces (surface_pass vh s st) s' = Some r \<longrightarrow>
      1 \<le> handle r \<and> handle r \<le> n_sets (core (surface_pass vh s st))"
    using assms
    by (auto simp: surface_pass_new(1,2) [OF None] handles_bounded_def le_Suc_eq)
  ultimately show ?thesis by (simp add: handles_bounded_def)
next
  case (Some r)
  from assms Some have hr: "1 \<le> handle r \<and> handle r \<le> n_sets (core st)"
    by (simp add: handles_bounded_def)
  have tb: "tags_bounded (core (surface_pass vh s st))"
    unfolding tags_bounded_def
  proof (intro allI impI)
    fix t h
    assume a: "tag_get_data (core (surface_pass vh s st)) t h \<noteq> None"
    show "1 \<le> h \<and> h \<le> n_sets (core (surface_pass vh s st))"
    proof (cases "h = handle r")
      case True
      with hr show ?thesis by (simp add: surface_pass_known(1) [OF Some])
    next
      case False
      with a have "tag_get_data (core st) t h \<noteq> None"
        by (simp add: surface_pass_known_tag(1) [OF Some])
      with assms have "1 \<le> h \<and> h \<le> n_sets (core st)"
        by (simp add: handles_bounded_def tags_bounded_def)
      then show ?thesis by (simp add: surface_pass_known(1) [OF Some])
    qed
  qed
  moreover have "\<forall>s' r'. known_surfaces (surface_pass vh s st) s' = Some r' \<longrightarrow>
      1 \<le> handle r' \<and> handle r' \<le> n_sets (core (surface_pass vh s st))"
    using assms hr
    by (auto simp: surface_pass_known(1,2) [OF Some] handles_bounded_def)
  ultimately show ?thesis by (simp add: handles_bounded_def)
qed

lemma handles_bounded_new_volume:
  assumes "handles_bounded st"
  shows "handles_bounded (new_volume i st)"
proof -
  have "tags_bounded (core (new_volume i st))"
    unfolding tags_bounded_def
  proof (intro allI impI)
    fix t h
    assume a: "tag_get_data (core (new_volume i st)) t h \<noteq> None"
    show "1 \<le> h \<and> h \<le> n_sets (core (new_volume i st))"
    proof (cases "h = Suc (n_sets (core st))")
      case True
      then show ?thesis by (simp add: new_volume_obs)
    next
      case False
      with a have "tag_get_data (core st) t h \<noteq> None"
        by (simp add: new_volume_tag(1))
      with assms have "1 \<le> h \<and> h \<le> n_sets (core st)"
        by (simp add: handles_bounded_def tags_bounded_def)
      then show ?thesis by (simp add: new_volume_obs)
    qed
  qed
  moreover have "\<forall>s r. known_surfaces (new_volume i st) s = Some r \<longrightarrow>
      1 \<le> handle r \<and> handle r \<le> n_sets (core (new_volume i st))"
    using assms by (auto simp: new_volume_obs handles_bounded_def le_Suc_eq)
  ultimately show ?thesis by (simp add: handles_bounded_def)
qed

lemma handles_bounded_group_pass:
  assumes "handles_bounded st"
  shows "handles_bounded (group_pass m vh g st)"
proof (cases "known_groups st g")
  case None
  have "tags_bounded (core (group_pass m vh g st))"
    unfolding tags_bounded_def
  proof (intro allI impI)
    fix t h
    assume a: "tag_get_data (core (group_pass m vh g st)) t h \<noteq> None"
    show "1 \<le> h \<and> h \<le> n_sets (core (group_pass m vh g st))"
    proof (cases "h = Suc (n_sets (core st))")
      case True
      then show ?thesis by (simp add: group_pass_new(1) [OF None])
    next
      case False
      with a have "tag_get_data (core st) t h \<noteq> None"
        by (simp add: group_pass_new_tag(1) [OF None])
      with assms have "1 \<le> h \<and> h \<le> n_sets (core st)"
        by (simp add: handles_bounded_def tags_bounded_def)
      then show ?thesis by (simp add: group_pass_new(1) [OF None])
    qed
  qed
  moreover have "\<forall>s r. known_surfaces (group_pass m vh g st) s = Some r \<longrightarrow>
      1 \<le> handle r \<and> handle r \<le> n_sets (core (group_pass m vh g st))"
    using assms by (auto simp: group_pass_new(1,2) [OF None] handles_bounded_def le_Suc_eq)
  ultimately show ?thesis by (simp add: handles_bounded_def)
next
  case (Some gh)
  with assms show ?thesis
    by (simp add: handles_bounded_def tags_bounded_def group_pass_known [OF Some])
qed

lemma handles_bounded_fold:
  "handles_bounded st \<Longrightarrow> handles_bounded (fold (surface_pass vh) ss st)"
  by (induction ss arbitrary: st) (simp_all add: handles_bounded_surface_pass)

lemma grows_fold: "grows (core st) (core (fold (surface_pass vh) ss st))"
proof (induction ss arbitrary: st)
  case Nil
  show ?case by (simp add: grows_refl)
next
  case (Cons s ss)
  show ?case
    using grows_trans [OF grows_surface_pass Cons.IH] by simp
qed

lemma upt_split: "i \<le> j \<Longrightarrow> j \<le> k \<Longrightarrow> [i ..< k] = [i ..< j] @ [j ..< k]"
  by (metis le_Suc_ex upt_add_eq_append)

lemma geom_dimension_grows:
  assumes "grows c c'"
  shows "get_entities_of_geom_dimension c' d =
           get_entities_of_geom_dimension c d @
           filter (\<lambda>h. tag_get_data c' GeomDimension h = Some (IntVal d))
             [Suc (n_sets c) ..< Suc (n_sets c')]"
proof -
  from assms have le: "n_sets c \<le> n_sets c'" by (simp add: grows_def)
  have split: "[1 ..< Suc (n_sets c')] = [1 ..< Suc (n_sets c)] @ [Suc (n_sets c) ..< Suc (n_sets c')]"
    using le by (intro upt_split) simp_all
  have old: "filter (\<lambda>h. tag_get_data c' GeomDimension h = Some (IntVal d)) [1 ..< Suc (n_sets c)] =
             filter (\<lambda>h. tag_get_data c GeomDimension h = Some (IntVal d)) [1 ..< Suc (n_sets c)]"
    using assms by (intro filter_cong) (auto simp: grows_def)
  show ?thesis
    unfolding get_entities_of_geom_dimension_def split filter_append old ..
qed

lemma geom_dimension_bounds:
  "h \<in> set (get_entities_of_geom_dimension c d) \<Longrightarrow> 1 \<le> h \<and> h \<le> n_sets c"
  by (auto simp: get_entities_of_geom_dimension_def)

lemma geom_dimension_same:
  assumes "grows c c'" and "n_sets c' = n_sets c"
  shows "get_entities_of_geom_dimension c' d = get_entities_of_geom_dimension c d"
  using geom_dimension_grows [OF assms(1), of d] assms(2) by simp

lemma geom_dimension_fresh:
  assumes "grows c c'" and "n_sets c' = Suc (n_sets c)"
  shows "get_entities_of_geom_dimension c' d =
           get_entities_of_geom_dimension c d @
           (if tag_get_data c' GeomDimension (Suc (n_sets c)) = Some (IntVal d)
            then [Suc (n_sets c)] else [])"
  using geom_dimension_grows [OF assms(1), of d] assms(2) by simp

lemma volumes_surface_pass:
  "volumes (core (surface_pass vh s st)) = volumes (core st)"
proof (cases "known_surfaces st s")
  case None
  show ?thesis
    unfolding volumes_def
    using geom_dimension_fresh [OF grows_surface_pass surface_pass_new(1) [OF None], of vh 3]
    by (simp add: surface_pass_new_tag [OF None])
next
  case (Some r)
  show ?thesis
    unfolding volumes_def
    using geom_dimension_same [OF grows_surface_pass surface_pass_known(1) [OF Some], of vh 3]
    by simp
qed

lemma surfaces_surface_pass:
  "surfaces (core (surface_pass vh s st)) =
     surfaces (core st) @ (if known_surfaces st s = None then [Suc (n_sets (core st))] else [])"
proof (cases "known_surfaces st s")
  case None
  show ?thesis
    unfolding surfaces_def
    using geom_dimension_fresh [OF grows_surface_pass surface_pass_new(1) [OF None], of vh 2]
    by (simp add: surface_pass_new_tag [OF None] None)
next
  case (Some r)
  show ?thesis
    unfolding surfaces_def
    using geom_dimension_same [OF grows_surface_pass surface_pass_known(1) [OF Some], of vh 2]
    by (simp add: Some)
qed

lemma volumes_fold: "volumes (core (fold (surface_pass vh) ss st)) = volumes (core st)"
  by (induction ss arbitrary: st) (simp_all add: volumes_surface_pass)

lemma volumes_new_volume:
  "volumes (core (new_volume i st)) = volumes (core st) @ [Suc (n_sets (core st))]"
  unfolding volumes_def
  using geom_dimension_fresh [OF grows_new_volume new_volume_obs(1), of i st 3]
  by (simp add: new_volume_tag)

lemma surfaces_new_volume: "surfaces (core (new_volume i st)) = surfaces (core st)"
  unfolding surfaces_def
  using geom_dimension_fresh [OF grows_new_volume new_volume_obs(1), of i st 2]
  by (simp add: new_volume_tag)

lemma geom_dimension_group_pass:
  assumes "handles_bounded st"
  shows "get_entities_of_geom_dimension (core (group_pass m vh g st)) d =
         get_entities_of_geom_dimension (core st) d"
proof (cases "known_groups st g")
  case None
  from assms have "tag_get_data (core st) GeomDimension (Suc (n_sets (core st))) = None"
    by (intro tags_bounded_fresh) (simp_all add: handles_bounded_def)
  then show ?thesis
    using geom_dimension_fresh [OF grows_group_pass group_pass_new(1) [OF None], of m vh d]
    by (simp add: group_pass_new_tag [OF None])
next
  case (Some gh)
  show ?thesis
    using geom_dimension_same [OF grows_group_pass group_pass_known(1) [OF Some], of m vh d]
    by simp
qed

subsection \<open>Loop rules\<close>

lemma process_volumes_invariant:
  assumes step: "\<And>pre v st. P pre st \<Longrightarrow> length (get_physical_groups_for_entity m 3 v) = 1 \<Longrightarrow>
                   P (pre @ [v]) (volume_pass m (length pre, v) st)"
  shows "P pre st \<Longrightarrow> process_volumes raises m (enumerate (length pre) vts) st = Inr st' \<Longrightarrow>
         P (pre @ vts) st'"
proof (induction vts arbitrary: pre st)
  case Nil
  then show ?case by simp
next
  case (Cons v vts)
  from Cons.prems(2) obtain st1 where
    s1: "process_volume raises m (length pre, v) st = Inr st1" and
    s2: "process_volumes raises m (enumerate (Suc (length pre)) vts) st1 = Inr st'"
    by (auto split: sum.splits)
  from step [OF Cons.prems(1) process_volume_Inr(1) [OF s1]] process_volume_Inr(2) [OF s1]
  have "P (pre @ [v]) st1" by simp
  from Cons.IH [OF this] s2 show ?case by simp
qed

lemma fold_invariant:
  assumes step: "\<And>seen s st. Q seen st \<Longrightarrow> Q (seen @ [s]) (surface_pass vh s st)"
  shows "Q seen st \<Longrightarrow> Q (seen @ ss) (fold (surface_pass vh) ss st)"
proof (induction ss arbitrary: seen st)
  case Nil
  then show ?case by simp
next
  case (Cons s ss)
  from step [OF Cons.prems] have "Q (seen @ [s]) (surface_pass vh s st)" .
  from Cons.IH [OF this] show ?case by simp
qed

subsection \<open>Volumes and their global ids\<close>

lemma volumes_bounds: "h \<in> set (volumes c) \<Longrightarrow> 1 \<le> h \<and> h \<le> n_sets c"
  unfolding volumes_def by (rule geom_dimension_bounds)

lemma vol_ids_same:
  assumes "vol_ids K c" and "grows c c'" and "volumes c' = volumes c"
  shows "vol_ids K c'"
  unfolding vol_ids_def
proof (intro conjI allI impI)
  show "length (volumes c') = K" using assms by (simp add: vol_ids_def)
next
  fix i assume i: "i < K"
  with assms(1) have "volumes c ! i \<in> set (volumes c)" by (simp add: vol_ids_def)
  then have b: "volumes c ! i \<le> n_sets c" using volumes_bounds by blast
  from assms(2) b have
    "tag_get_data c' GlobalId (volumes c ! i) = tag_get_data c GlobalId (volumes c ! i)"
    "tag_get_data c' Category (volumes c ! i) = tag_get_data c Category (volumes c ! i)"
    by (simp_all add: grows_def)
  with assms i show
    "tag_get_data c' GlobalId (volumes c' ! i) = Some (IntVal (int i))"
    "tag_get_data c' Category (volumes c' ! i) = Some (StrVal ''Volume'')"
    by (simp_all add: vol_ids_def)
qed

lemma vol_ids_new_volume:
  assumes "vol_ids K (core st)"
  shows "vol_ids (Suc K) (core (new_volume K st))"
  unfolding vol_ids_def
proof (intro conjI allI impI)
  show "length (volumes (core (new_volume K st))) = Suc K"
    using assms by (simp add: volumes_new_volume vol_ids_def)
next
  fix i assume i: "i < Suc K"
  from assms have len: "length (volumes (core st)) = K" by (simp add: vol_ids_def)
  have at_K: "(volumes (core st) @ [Suc (n_sets (core st))]) ! K = Suc (n_sets (core st))"
    using len by (metis nth_append_length)
  show "tag_get_data (core (new_volume K st)) GlobalId (volumes (core (new_volume K st)) ! i) =
          Some (IntVal (int i))"
  proof (cases "i = K")
    case True
    then show ?thesis by (simp add: volumes_new_volume at_K new_volume_tag)
  next
    case False
    with i have iK: "i < K" by simp
    with len have "volumes (core st) ! i \<in> set (volumes (core st))" by simp
    then have "volumes (core st) ! i \<noteq> Suc (n_sets (core st))"
      using volumes_bounds by fastforce
    with assms iK len show ?thesis
      by (simp add: volumes_new_volume nth_append new_volume_tag(1) vol_ids_def)
  qed
  show "tag_get_data (core (new_volume K st)) Category (volumes (core (new_volume K st)) ! i) =
          Some (StrVal ''Volume'')"
  proof (cases "i = K")
    case True
    then show ?thesis by (simp add: volumes_new_volume at_K new_volume_tag)
  next
    case False
    with i have iK: "i < K" by simp
    with len have "volumes (core st) ! i \<in> set (volumes (core st))" by simp
    then have "volumes (core st) ! i \<noteq> Suc (n_sets (core st))"
      using volumes_bounds by fastforce
    with assms iK len show ?thesis
      by (simp add: volumes_new_volume nth_append new_volume_tag(1) vol_ids_def)
  qed
qed

lemma volumes_group_pass:
  "handles_bounded st \<Longrightarrow> volumes (core (group_pass m vh g st)) = volumes (core st)"
  unfolding volumes_def by (rule geom_dimension_group_pass)

lemma surfaces_group_pass:
  "handles_bounded st \<Longrightarrow> surfaces (core (group_pass m vh g st)) = surfaces (core st)"
  unfolding surfaces_def by (rule geom_dimension_group_pass)

lemma vol_inv_process_volume:
  assumes "vol_inv pre st"
  shows "vol_inv (pre @ [v]) (volume_pass m (length pre, v) st)"
proof -
  let ?h = "Suc (n_sets (core st))"
  let ?g = "get_physical_groups_for_entity m 3 v ! 0"
  let ?st1 = "new_volume (length pre) st"
  let ?st2 = "group_pass m ?h ?g ?st1"
  define st' where "st' = volume_pass m (length pre, v) st"
  have st': "st' = fold (surface_pass ?h) (snd (get_adjacencies m 3 v)) ?st2"
    by (simp add: st'_def volume_pass_def)
  from assms have hb: "handles_bounded st" and vi: "vol_ids (length pre) (core st)"
    by (simp_all add: vol_inv_def)
  have hb1: "handles_bounded ?st1" using hb by (rule handles_bounded_new_volume)
  have hb2: "handles_bounded ?st2" using hb1 by (rule handles_bounded_group_pass)
  have hb3: "handles_bounded st'" unfolding st' using hb2 by (rule handles_bounded_fold)
  have v1: "vol_ids (Suc (length pre)) (core ?st1)" using vi by (rule vol_ids_new_volume)
  have v2: "vol_ids (Suc (length pre)) (core ?st2)"
    using v1 grows_group_pass volumes_group_pass [OF hb1] by (rule vol_ids_same)
  have v3: "vol_ids (Suc (length pre)) (core st')"
    unfolding st' using v2 grows_fold volumes_fold by (rule vol_ids_same)
  from hb3 v3 show ?thesis by (simp add: vol_inv_def st'_def)
qed

lemma vol_inv_process_volumes:
  assumes "vol_inv pre st" and "process_volumes raises m (enumerate (length pre) vts) st = Inr st'"
  shows "vol_inv (pre @ vts) st'"
  using vol_inv_process_volume assms
  by (rule process_volumes_invariant [where P = vol_inv])

subsection \<open>The last step: the file set\<close>

lemma make_from_mesh_body_eq:
  "make_from_mesh_body raises m =
     attempt raises GetEntities
       (case process_volumes raises m (enumerate 0 (volume_tags m)) initial_state of
          Inl e \<Rightarrow> Inl e
        | Inr st \<Rightarrow> Inr (finish (core st)))"
  by (simp add: make_from_mesh_body_def finish_def initial_state_def create_meshset_def
      get_entities_by_handle_def split: sum.splits)

lemma add_entities_frame [simp]:
  "n_sets (add_entities s es c) = n_sets c"
  "tag_get_data (add_entities s es c) = tag_get_data c"
  "tag_data (add_entities s es c) = tag_data c"
  "loaded (add_entities s es c) = loaded c"
  "children (add_entities s es c) = children c"
  "parents (add_entities s es c) = parents c"
  unfolding add_entities_def
  by (induction es arbitrary: c; simp)+

lemma contents_add_entities_other:
  "x \<noteq> s \<Longrightarrow> contents (add_entities s es c) x = contents c x"
  unfolding add_entities_def by (induction es arbitrary: c) simp_all

lemma contents_add_entities_set:
  "set (contents (add_entities s es c) s) = set es \<union> set (contents c s)"
  unfolding add_entities_def by (induction es arbitrary: c) auto

lemma finish_obs:
  shows "n_sets (finish c) = Suc (n_sets c)"
    and "loaded (finish c) = loaded c"
    and "children (finish c) = children c"
    and "parents (finish c) = parents c"
    and "tag_get_data (finish c) FacetingTol (Suc (n_sets c)) = Some (DoubleVal faceting_tol_value)"
    and "x \<noteq> Suc (n_sets c) \<Longrightarrow> tag_get_data (finish c) t x = tag_get_data c t x"
    and "t \<noteq> FacetingTol \<Longrightarrow> tag_get_data (finish c) t x = tag_get_data c t x"
    and "x \<noteq> Suc (n_sets c) \<Longrightarrow> contents (finish c) x = contents c x"
    and "set (contents (finish c) (Suc (n_sets c))) =
           set (get_entities_by_handle c) \<union> set (contents c (Suc (n_sets c)))"
  by (simp_all add: finish_def contents_add_entities_other contents_add_entities_set)

lemma grows_finish: "grows c (finish c)"
  unfolding grows_def by (simp add: finish_obs)

lemma geom_dimension_finish:
  assumes "tags_bounded c"
  shows "get_entities_of_geom_dimension (finish c) d = get_entities_of_geom_dimension c d"
proof -
  have "tag_get_data (finish c) GeomDimension (Suc (n_sets c)) =
        tag_get_data c GeomDimension (Suc (n_sets c))"
    by (simp add: finish_obs)
  also have "\<dots> = None"
    using assms by (intro tags_bounded_fresh) simp_all
  finally show ?thesis
    using geom_dimension_fresh [OF grows_finish finish_obs(1), of c d] by simp
qed

lemma make_from_mesh_Inr:
  assumes "fst (make_from_mesh raises m g) = Inr c"
  shows "make_from_mesh_body raises m = Inr c"
  using assms
  by (auto simp: make_from_mesh_def with_mesh_def split: prod.splits sum.splits)

lemma make_from_mesh_entered:
  assumes "fst (enter raises g) = Inr ()"
  shows "fst (make_from_mesh raises m g) = make_from_mesh_body raises m"
  using assms
  by (auto simp: make_from_mesh_def with_mesh_def split: prod.splits sum.splits)

lemma handles_bounded_initial: "handles_bounded initial_state"
  by (simp add: handles_bounded_def tags_bounded_def initial_state_def new_core_def
      tag_get_data_def)

lemma volumes_initial: "volumes (core initial_state) = []"
  by (simp add: volumes_def get_entities_of_geom_dimension_def initial_state_def new_core_def)

lemma vol_inv_initial: "vol_inv [] initial_state"
  by (simp add: vol_inv_def handles_bounded_initial vol_ids_def volumes_initial)

lemma process_volumes_Inl:
  "process_volumes raises m (enumerate k vts) st = Inl e \<Longrightarrow>
     e = ValueError \<and> (\<exists>v \<in> set vts. length (get_physical_groups_for_entity m 3 v) \<noteq> 1) \<or>
     e = ExternalError \<and> (\<exists>k. raises k)"
proof (induction vts arbitrary: k st)
  case Nil
  then show ?case by simp
next
  case (Cons v vts)
  show ?case
  proof (cases "process_volume raises m (k, v) st")
    case (Inl e')
    with Cons.prems have "e' = e" by simp
    with process_volume_Inl [OF Inl] show ?thesis by auto
  next
    case (Inr st1)
    with Cons.prems have "process_volumes raises m (enumerate (Suc k) vts) st1 = Inl e" by simp
    from Cons.IH [OF this] show ?thesis by auto
  qed
qed

lemma process_volumes_bad:
  "\<exists>v \<in> set vts. length (get_physical_groups_for_entity m 3 v) \<noteq> 1 \<Longrightarrow>
     \<exists>e. process_volumes raises m (enumerate k vts) st = Inl e"
proof (induction vts arbitrary: k st)
  case Nil
  then show ?case by simp
next
  case (Cons v vts)
  show ?case
  proof (cases "process_volume raises m (k, v) st")
    case (Inl e)
    then show ?thesis by simp
  next
    case (Inr st1)
    from process_volume_Inr(1) [OF Inr] Cons.prems
    have "\<exists>v \<in> set vts. length (get_physical_groups_for_entity m 3 v) \<noteq> 1" by auto
    from Cons.IH [OF this, of "Suc k" st1] Inr show ?thesis by simp
  qed
qed

lemma process_volumes_no_raise:
  assumes "\<forall>k. \<not> raises k"
    and "\<forall>v \<in> set vts. length (get_physical_groups_for_entity m 3 v) = 1"
  shows "\<exists>st'. process_volumes raises m (enumerate k vts) st = Inr st'"
  using assms(2)
  by (induction vts arbitrary: k st) (simp_all add: process_volume_no_raise [OF assms(1)])

lemma make_from_mesh_body_Inl:
  assumes "make_from_mesh_body raises m = Inl e"
  shows "e = ValueError \<and>
           (\<exists>v \<in> set (volume_tags m). length (get_physical_groups_for_entity m 3 v) \<noteq> 1) \<or>
         e = ExternalError \<and> (\<exists>k. raises k)"
  using assms process_volumes_Inl [of raises m 0 "volume_tags m" initial_state]
  by (auto simp: make_from_mesh_body_eq attempt_def split: sum.splits if_splits)

lemma make_from_mesh_body_bad:
  assumes "\<exists>v \<in> set (volume_tags m). length (get_physical_groups_for_entity m 3 v) \<noteq> 1"
  shows "\<exists>e. make_from_mesh_body raises m = Inl e"
  using process_volumes_bad [OF assms, of raises 0 initial_state]
  by (auto simp: make_from_mesh_body_eq attempt_def split: sum.splits)

lemma make_from_mesh_body_no_raise:
  assumes "\<forall>k. \<not> raises k"
    and "\<forall>v \<in> set (volume_tags m). length (get_physical_groups_for_entity m 3 v) = 1"
  shows "\<exists>c. make_from_mesh_body raises m = Inr c"
proof -
  from process_volumes_no_raise [OF assms, of 0 initial_state] obtain st where
    "process_volumes raises m (enumerate 0 (volume_tags m)) initial_state = Inr st" ..
  moreover from assms(1) have "\<not> raises GetEntities" by blast
  ultimately have "make_from_mesh_body raises m = Inr (finish (core st))"
    by (simp add: make_from_mesh_body_eq attempt_def)
  then show ?thesis by blast
qed

text \<open>What a successful build went through.\<close>

lemma make_from_mesh_body_Inr:
  assumes "make_from_mesh_body raises m = Inr c"
  obtains st where "process_volumes raises m (enumerate 0 (volume_tags m)) initial_state = Inr st"
    and "c = finish (core st)"
  using assms by (auto simp: make_from_mesh_body_eq attempt_def split: sum.splits if_splits)

lemma vol_ids_final:
  assumes "make_from_mesh_body raises m = Inr c"
  shows "vol_ids (length (volume_tags m)) c"
proof -
  from assms obtain st where
    run: "process_volumes raises m (enumerate 0 (volume_tags m)) initial_state = Inr st" and
    c: "c = finish (core st)"
    by (rule make_from_mesh_body_Inr)
  from vol_inv_process_volumes [of "[]" initial_state raises m "volume_tags m" st] vol_inv_initial run
  have inv: "vol_inv (volume_tags m) st" by simp
  then have tb: "tags_bounded (core st)" by (simp add: vol_inv_def handles_bounded_def)
  have "volumes (finish (core st)) = volumes (core st)"
    unfolding volumes_def using tb by (rule geom_dimension_finish)
  with inv show ?thesis
    unfolding c by (intro vol_ids_same [OF _ grows_finish]) (simp_all add: vol_inv_def)
qed

subsection \<open>When the build returns a model\<close>

lemma make_from_mesh_succeeds:
  assumes "\<forall>k. \<not> raises k"
    and "\<forall>v \<in> set (volume_tags m). length (get_physical_groups_for_entity m 3 v) = 1"
  shows "\<exists>c. fst (make_from_mesh raises m g) = Inr c"
proof -
  from assms(1) have "fst (enter raises g) = Inr ()"
    by (simp add: enter_def and_then_def call_def)
  then have "fst (make_from_mesh raises m g) = make_from_mesh_body raises m"
    by (rule make_from_mesh_entered)
  with make_from_mesh_body_no_raise [OF assms] show ?thesis by simp
qed

lemma no_raise_never: "\<forall>k. \<not> no_raise k"
  by (simp add: no_raise_def)


lemma volume_tags_examples:
  "volume_tags sphere_mesh = [1]"
  "volume_tags ungrouped_mesh = [1]"
  "volume_tags two_volume_mesh = [1, 2]"
  "volume_tags three_volume_mesh = [1, 2, 3]"
  by (simp_all add: volume_tags_def get_entities_def sphere_mesh_def ungrouped_mesh_def
      two_volume_mesh_def three_volume_mesh_def)

lemma groups_examples:
  "get_physical_groups_for_entity sphere_mesh 3 1 = [1]"
  "get_physical_groups_for_entity ungrouped_mesh 3 1 = []"
  "get_physical_groups_for_entity two_volume_mesh 3 1 = [1]"
  "get_physical_groups_for_entity two_volume_mesh 3 2 = [2]"
  "get_physical_groups_for_entity three_volume_mesh 3 1 = [1]"
  "get_physical_groups_for_entity three_volume_mesh 3 2 = [1]"
  "get_physical_groups_for_entity three_volume_mesh 3 3 = [1]"
  by (simp_all add: get_physical_groups_for_entity_def sphere_mesh_def ungrouped_mesh_def
      two_volume_mesh_def three_volume_mesh_def)

lemma examples_build:
  "\<exists>c. fst (make_from_mesh no_raise sphere_mesh idle) = Inr c"
  "\<exists>c. fst (make_from_mesh no_raise two_volume_mesh idle) = Inr c"
  "\<exists>c. fst (make_from_mesh no_raise three_volume_mesh idle) = Inr c"
  by (rule make_from_mesh_succeeds [OF no_raise_never],
      simp add: volume_tags_examples groups_examples)+

subsection \<open>The build under the mesh context\<close>

lemma enter_Inl:
  "fst (enter raises g) = Inl e \<Longrightarrow> e = ExternalError \<and> (\<exists>k. raises k)"
  by (auto simp: enter_def and_then_def call_def split: if_splits prod.splits sum.splits)

lemma make_from_mesh_fst:
  "fst (make_from_mesh raises m g) =
     (case fst (enter raises g) of Inl e \<Rightarrow> Inl e | Inr u \<Rightarrow> make_from_mesh_body raises m)"
  by (auto simp: make_from_mesh_def with_mesh_def split: prod.splits sum.splits)

lemma make_from_mesh_Inl:
  assumes "fst (make_from_mesh raises m g) = Inl e"
  shows "e = ValueError \<and>
           (\<exists>v \<in> set (volume_tags m). length (get_physical_groups_for_entity m 3 v) \<noteq> 1) \<or>
         e = ExternalError \<and> (\<exists>k. raises k)"
proof (cases "fst (enter raises g)")
  case (Inl e')
  with assms have "e' = e" by (simp add: make_from_mesh_fst)
  with enter_Inl [OF Inl] show ?thesis by simp
next
  case (Inr u)
  with assms have "make_from_mesh_body raises m = Inl e" by (simp add: make_from_mesh_fst)
  then show ?thesis by (rule make_from_mesh_body_Inl)
qed

lemma make_from_mesh_bad:
  assumes "\<exists>v \<in> set (volume_tags m). length (get_physical_groups_for_entity m 3 v) \<noteq> 1"
  shows "\<exists>e. fst (make_from_mesh raises m g) = Inl e"
  using make_from_mesh_body_bad [OF assms, of raises]
  by (auto simp: make_from_mesh_fst split: sum.splits)

subsection \<open>Surfaces and their tags\<close>

lemma surf_tags_ok_surface_pass:
  assumes hb: "handles_bounded st" and ok: "surf_tags_ok st"
  shows "surf_tags_ok (surface_pass vh s st)"
proof (cases "known_surfaces st s")
  case None
  let ?h = "Suc (n_sets (core st))"
  let ?st' = "surface_pass vh s st"
  have old: "handle r \<noteq> ?h" if "known_surfaces st s' = Some r" for s' r
    using hb that by (fastforce simp: handles_bounded_def)
  show ?thesis
    unfolding surf_tags_ok_def
  proof (intro conjI allI impI ballI)
    fix s' r assume k: "known_surfaces ?st' s' = Some r"
    show "tag_get_data (core ?st') GeomDimension (handle r) = Some (IntVal 2)"
         "tag_get_data (core ?st') GlobalId (handle r) = Some (IntVal s')"
         "tag_get_data (core ?st') Category (handle r) = Some (StrVal ''Surface'')"
         "tag_get_data (core ?st') SurfSense (handle r) =
            Some (HandleList [forward_volume r, reverse_volume r])"
    proof -
      show "tag_get_data (core ?st') GeomDimension (handle r) = Some (IntVal 2)"
      proof (cases "s' = s")
        case True
        with k show ?thesis
          by (auto simp: surface_pass_new(2) [OF None] surface_pass_new_tag [OF None])
      next
        case False
        with k have k0: "known_surfaces st s' = Some r"
          by (simp add: surface_pass_new(2) [OF None])
        with ok old [OF k0] show ?thesis
          by (simp add: surface_pass_new_tag(1) [OF None] surf_tags_ok_def)
      qed
      show "tag_get_data (core ?st') GlobalId (handle r) = Some (IntVal s')"
      proof (cases "s' = s")
        case True
        with k show ?thesis
          by (auto simp: surface_pass_new(2) [OF None] surface_pass_new_tag [OF None])
      next
        case False
        with k have k0: "known_surfaces st s' = Some r"
          by (simp add: surface_pass_new(2) [OF None])
        with ok old [OF k0] show ?thesis
          by (simp add: surface_pass_new_tag(1) [OF None] surf_tags_ok_def)
      qed
      show "tag_get_data (core ?st') Category (handle r) = Some (StrVal ''Surface'')"
      proof (cases "s' = s")
        case True
        with k show ?thesis
          by (auto simp: surface_pass_new(2) [OF None] surface_pass_new_tag [OF None])
      next
        case False
        with k have k0: "known_surfaces st s' = Some r"
          by (simp add: surface_pass_new(2) [OF None])
        with ok old [OF k0] show ?thesis
          by (simp add: surface_pass_new_tag(1) [OF None] surf_tags_ok_def)
      qed
      show "tag_get_data (core ?st') SurfSense (handle r) =
              Some (HandleList [forward_volume r, reverse_volume r])"
      proof (cases "s' = s")
        case True
        with k show ?thesis
          by (auto simp: surface_pass_new(2) [OF None] surface_pass_new_tag [OF None])
      next
        case False
        with k have k0: "known_surfaces st s' = Some r"
          by (simp add: surface_pass_new(2) [OF None])
        with ok old [OF k0] show ?thesis
          by (simp add: surface_pass_new_tag(1) [OF None] surf_tags_ok_def)
      qed
    qed
  next
    fix h assume "h \<in> set (surfaces (core ?st'))"
    then have "h \<in> set (surfaces (core st)) \<or> h = ?h"
      by (auto simp: surfaces_surface_pass None)
    then show "\<exists>s' r. known_surfaces ?st' s' = Some r \<and> handle r = h"
    proof
      assume "h \<in> set (surfaces (core st))"
      with ok obtain s' r where k0: "known_surfaces st s' = Some r" and h: "handle r = h"
        by (auto simp: surf_tags_ok_def)
      from k0 None have "s' \<noteq> s" by auto
      with k0 h show ?thesis
        by (auto simp: surface_pass_new(2) [OF None])
    next
      assume "h = ?h"
      then show ?thesis
        by (auto simp: surface_pass_new(2) [OF None])
    qed
  qed
next
  case (Some r0)
  let ?st' = "surface_pass vh s st"
  from ok Some have id0: "tag_get_data (core st) GlobalId (handle r0) = Some (IntVal s)"
    by (simp add: surf_tags_ok_def)
  have other: "handle r \<noteq> handle r0" if "known_surfaces st s' = Some r" and "s' \<noteq> s" for s' r
  proof
    assume "handle r = handle r0"
    moreover from ok that(1) have "tag_get_data (core st) GlobalId (handle r) = Some (IntVal s')"
      by (simp add: surf_tags_ok_def)
    ultimately show False using id0 that(2) by simp
  qed
  show ?thesis
    unfolding surf_tags_ok_def
  proof (intro conjI allI impI ballI)
    fix s' r assume k: "known_surfaces ?st' s' = Some r"
    show "tag_get_data (core ?st') GeomDimension (handle r) = Some (IntVal 2)"
      using k ok Some
      by (auto simp: surface_pass_known(2) [OF Some] surface_pass_known_tag(2) [OF Some]
          surf_tags_ok_def split: if_splits)
    show "tag_get_data (core ?st') GlobalId (handle r) = Some (IntVal s')"
      using k ok Some
      by (auto simp: surface_pass_known(2) [OF Some] surface_pass_known_tag(2) [OF Some]
          surf_tags_ok_def split: if_splits)
    show "tag_get_data (core ?st') Category (handle r) = Some (StrVal ''Surface'')"
      using k ok Some
      by (auto simp: surface_pass_known(2) [OF Some] surface_pass_known_tag(2) [OF Some]
          surf_tags_ok_def split: if_splits)
    show "tag_get_data (core ?st') SurfSense (handle r) =
            Some (HandleList [forward_volume r, reverse_volume r])"
    proof (cases "s' = s")
      case True
      with k have "r = r0\<lparr> reverse_volume := vh \<rparr>"
        by (simp add: surface_pass_known(2) [OF Some])
      then show ?thesis
        by (simp add: surface_pass_known_tag(3) [OF Some])
    next
      case False
      with k have k0: "known_surfaces st s' = Some r"
        by (simp add: surface_pass_known(2) [OF Some])
      from other [OF k0 False] ok k0 show ?thesis
        by (simp add: surface_pass_known_tag(1) [OF Some] surf_tags_ok_def)
    qed
  next
    fix h assume "h \<in> set (surfaces (core ?st'))"
    then have "h \<in> set (surfaces (core st))"
      by (simp add: surfaces_surface_pass Some)
    with ok obtain s' r where k0: "known_surfaces st s' = Some r" and h: "handle r = h"
      by (auto simp: surf_tags_ok_def)
    show "\<exists>s' r. known_surfaces ?st' s' = Some r \<and> handle r = h"
    proof (cases "s' = s")
      case True
      with k0 Some h show ?thesis
        by (auto simp: surface_pass_known(2) [OF Some])
    next
      case False
      with k0 h show ?thesis
        by (auto simp: surface_pass_known(2) [OF Some])
    qed
  qed
qed

lemma surf_tags_ok_same:
  assumes ok: "surf_tags_ok st" and hb: "handles_bounded st"
    and k: "known_surfaces st' = known_surfaces st"
    and s: "surfaces (core st') = surfaces (core st)"
    and t: "\<And>t x. x \<le> n_sets (core st) \<Longrightarrow> tag_get_data (core st') t x = tag_get_data (core st) t x"
  shows "surf_tags_ok st'"
proof -
  have b: "handle r \<le> n_sets (core st)" if "known_surfaces st s' = Some r" for s' r
    using hb that by (auto simp: handles_bounded_def)
  show ?thesis
    using ok b unfolding surf_tags_ok_def k s by (simp add: t)
qed

lemma surf_tags_ok_new_volume:
  assumes "surf_tags_ok st" and "handles_bounded st"
  shows "surf_tags_ok (new_volume i st)"
  using assms
  by (rule surf_tags_ok_same) (simp_all add: new_volume_obs surfaces_new_volume new_volume_tag)

lemma surf_tags_ok_group_pass:
  assumes "surf_tags_ok st" and "handles_bounded st"
  shows "surf_tags_ok (group_pass m vh g st)"
proof (cases "known_groups st g")
  case None
  from assms show ?thesis
    by (rule surf_tags_ok_same)
      (simp_all add: group_pass_new [OF None] surfaces_group_pass [OF assms(2)]
        group_pass_new_tag [OF None])
next
  case (Some gh)
  from assms show ?thesis
    by (rule surf_tags_ok_same)
      (simp_all add: group_pass_known [OF Some] surfaces_group_pass [OF assms(2)])
qed

lemma surf_tags_ok_fold:
  assumes "handles_bounded st" and "surf_tags_ok st"
  shows "surf_tags_ok (fold (surface_pass vh) ss st)"
proof -
  have "handles_bounded (fold (surface_pass vh) ss st) \<and>
        surf_tags_ok (fold (surface_pass vh) ss st)"
    by (rule fold_invariant [where Q = "\<lambda>seen st. handles_bounded st \<and> surf_tags_ok st"
          and seen = "[]", simplified])
      (simp_all add: assms handles_bounded_surface_pass surf_tags_ok_surface_pass)
  then show ?thesis by simp
qed

subsection \<open>First occurrences\<close>

lemma first_seen_Nil [simp]: "first_seen [] = []"
  by (simp add: first_seen_def)

lemma first_seen_snoc:
  "first_seen (xs @ [x]) = (if x \<in> set xs then first_seen xs else first_seen xs @ [x])"
  by (simp add: first_seen_def)

lemma set_first_seen [simp]: "set (first_seen xs) = set xs"
  by (simp add: first_seen_def)

lemma distinct_first_seen [simp]: "distinct (first_seen xs)"
  by (simp add: first_seen_def)

lemma first_seen_distinct: "distinct xs \<Longrightarrow> first_seen xs = xs"
  by (simp add: first_seen_def distinct_remdups_id)

subsection \<open>The parent-child relation\<close>

lemma surface_pass_links:
  obtains h where
    "children (core (surface_pass vh s st)) =
       (children (core st))(vh := children (core st) vh @
          (if h \<in> set (children (core st) vh) then [] else [h]))"
    "parents (core (surface_pass vh s st)) =
       (parents (core st))(h := parents (core st) h @
          (if vh \<in> set (parents (core st) h) then [] else [vh]))"
    "\<exists>r. known_surfaces (surface_pass vh s st) s = Some r \<and> handle r = h"
    "known_surfaces st s = None \<longrightarrow> h = Suc (n_sets (core st))"
    "\<forall>r. known_surfaces st s = Some r \<longrightarrow> h = handle r"
proof (cases "known_surfaces st s")
  case None
  show ?thesis
    by (rule that [of "Suc (n_sets (core st))"])
      (simp_all add: surface_pass_new [OF None] None)
next
  case (Some r)
  show ?thesis
    by (rule that [of "handle r"]) (simp_all add: surface_pass_known [OF Some] Some)
qed

lemma known_handle_surface_pass:
  assumes "known_surfaces st s' = Some r"
  shows "\<exists>r'. known_surfaces (surface_pass vh s st) s' = Some r' \<and> handle r' = handle r"
proof (cases "known_surfaces st s")
  case None
  with assms have "s' \<noteq> s" by auto
  with assms show ?thesis by (simp add: surface_pass_new(2) [OF None])
next
  case (Some r0)
  with assms show ?thesis by (cases "s' = s") (simp_all add: surface_pass_known(2) [OF Some])
qed

lemma n_sets_surface_pass: "n_sets (core st) \<le> n_sets (core (surface_pass vh s st))"
  using grows_surface_pass [of st vh s] by (simp add: grows_def)

lemma children_known_surface_pass:
  assumes ck: "children_known st" and vh: "1 \<le> vh" "vh \<le> n_sets (core st)"
  shows "children_known (surface_pass vh s st)"
proof -
  let ?st' = "surface_pass vh s st"
  obtain h where
    c: "children (core ?st') =
       (children (core st))(vh := children (core st) vh @
          (if h \<in> set (children (core st) vh) then [] else [h]))" and
    k: "\<exists>r. known_surfaces ?st' s = Some r \<and> handle r = h"
    by (rule surface_pass_links [of vh s st])
  show ?thesis
    unfolding children_known_def
  proof (intro allI impI)
    fix p x assume x: "x \<in> set (children (core ?st') p)"
    then have "x \<in> set (children (core st) p) \<or> (p = vh \<and> x = h)"
      by (auto simp: c split: if_splits)
    then show "1 \<le> p \<and> p \<le> n_sets (core ?st') \<and>
               (\<exists>s' r. known_surfaces ?st' s' = Some r \<and> handle r = x)"
    proof
      assume "x \<in> set (children (core st) p)"
      with ck obtain s' r where p: "1 \<le> p" "p \<le> n_sets (core st)" and
        r: "known_surfaces st s' = Some r" "handle r = x"
        unfolding children_known_def by blast
      from known_handle_surface_pass [OF r(1), of vh s] r(2) p n_sets_surface_pass [of st vh s]
      show ?thesis by auto
    next
      assume "p = vh \<and> x = h"
      with k vh n_sets_surface_pass [of st vh s] show ?thesis by auto
    qed
  qed
qed

lemma children_known_same:
  assumes "children_known st" and "children (core st') = children (core st)"
    and "known_surfaces st' = known_surfaces st" and "n_sets (core st) \<le> n_sets (core st')"
  shows "children_known st'"
  using assms unfolding children_known_def by fastforce

lemma n_sets_group_pass: "n_sets (core st) \<le> n_sets (core (group_pass m vh g st))"
  using grows_group_pass [of st m vh g] by (simp add: grows_def)

lemma group_pass_frame:
  shows "known_surfaces (group_pass m vh g st) = known_surfaces st"
    and "children (core (group_pass m vh g st)) = children (core st)"
    and "parents (core (group_pass m vh g st)) = parents (core st)"
    and "loaded (core (group_pass m vh g st)) = loaded (core st)"
  by (cases "known_groups st g"; simp add: group_pass_new group_pass_known)+

lemma children_known_new_volume:
  assumes "children_known st"
  shows "children_known (new_volume i st)"
  using assms by (rule children_known_same) (simp_all add: new_volume_obs)

lemma children_known_group_pass:
  assumes "children_known st"
  shows "children_known (group_pass m vh g st)"
  using assms
  by (rule children_known_same) (simp_all add: group_pass_frame n_sets_group_pass)

lemma links_ok_surface_pass:
  assumes "links_ok (core st)"
  shows "links_ok (core (surface_pass vh s st))"
proof -
  obtain h where
    c: "children (core (surface_pass vh s st)) =
       (children (core st))(vh := children (core st) vh @
          (if h \<in> set (children (core st) vh) then [] else [h]))" and
    p: "parents (core (surface_pass vh s st)) =
       (parents (core st))(h := parents (core st) h @
          (if vh \<in> set (parents (core st) h) then [] else [vh]))"
    by (rule surface_pass_links [of vh s st])
  from assms show ?thesis
    unfolding links_ok_def c p by auto
qed

lemma links_ok_fold:
  assumes "links_ok (core st)"
  shows "links_ok (core (fold (surface_pass vh) ss st))"
  by (rule fold_invariant [where Q = "\<lambda>seen st. links_ok (core st)" and seen = "[]", simplified])
    (simp_all add: assms links_ok_surface_pass)

lemma links_ok_same:
  "links_ok c \<Longrightarrow> children c' = children c \<Longrightarrow> parents c' = parents c \<Longrightarrow> links_ok c'"
  by (simp add: links_ok_def)

lemma children_surface_pass_other:
  "p \<noteq> vh \<Longrightarrow> children (core (surface_pass vh s st)) p = children (core st) p"
  by (rule surface_pass_links [of vh s st]) simp

lemma children_fold_other:
  assumes "p \<noteq> vh"
  shows "children (core (fold (surface_pass vh) ss st)) p = children (core st) p"
  by (induction ss arbitrary: st) (simp_all add: children_surface_pass_other [OF assms])

subsection \<open>The children of a volume\<close>

lemma children_known_fold:
  assumes "children_known st" and "1 \<le> vh" and "vh \<le> n_sets (core st)"
  shows "children_known (fold (surface_pass vh) ss st)"
proof -
  have "children_known (fold (surface_pass vh) ss st) \<and>
        vh \<le> n_sets (core (fold (surface_pass vh) ss st))"
  proof (rule fold_invariant [where Q = "\<lambda>seen st. children_known st \<and> vh \<le> n_sets (core st)"
        and seen = "[]", simplified])
    fix s st assume "children_known st \<and> vh \<le> n_sets (core st)"
    with assms(2) n_sets_surface_pass [of st vh s]
    show "children_known (surface_pass vh s st) \<and> vh \<le> n_sets (core (surface_pass vh s st))"
      by (simp add: children_known_surface_pass)
  next
    from assms show "children_known st \<and> vh \<le> n_sets (core st)" by simp
  qed
  then show ?thesis by simp
qed

lemma child_global_id:
  assumes "children_known st" and "surf_tags_ok st" and "x \<in> set (children (core st) p)"
  obtains s r where "known_surfaces st s = Some r" and "handle r = x"
    and "tag_get_data (core st) GlobalId x = Some (IntVal s)"
proof -
  from assms(1,3) obtain s r where r: "known_surfaces st s = Some r" "handle r = x"
    unfolding children_known_def by blast
  with assms(2) have "tag_get_data (core st) GlobalId x = Some (IntVal s)"
    unfolding surf_tags_ok_def by blast
  with r show ?thesis by (rule that)
qed

lemma children_of_surface_pass:
  assumes hb: "handles_bounded st" and ok: "surf_tags_ok st" and ck: "children_known st"
    and seen: "\<forall>s' \<in> set seen. known_surfaces st s' \<noteq> None"
    and co: "children_of vh seen st"
  shows "children_of vh (seen @ [s]) (surface_pass vh s st)"
proof -
  let ?st' = "surface_pass vh s st"
  obtain h where
    c: "children (core ?st') =
       (children (core st))(vh := children (core st) vh @
          (if h \<in> set (children (core st) vh) then [] else [h]))" and
    k: "\<exists>r. known_surfaces ?st' s = Some r \<and> handle r = h" and
    new: "known_surfaces st s = None \<longrightarrow> h = Suc (n_sets (core st))" and
    old: "\<forall>r. known_surfaces st s = Some r \<longrightarrow> h = handle r"
    by (rule surface_pass_links [of vh s st])
  have ok': "surf_tags_ok ?st'" using hb ok by (rule surf_tags_ok_surface_pass)
  with k have idh: "tag_get_data (core ?st') GlobalId h = Some (IntVal s)"
    unfolding surf_tags_ok_def by blast
  have same: "tag_get_data (core ?st') GlobalId x = tag_get_data (core st) GlobalId x"
    if "x \<in> set (children (core st) vh)" for x
  proof -
    from ck that obtain s0 r0 where "known_surfaces st s0 = Some r0" "handle r0 = x"
      unfolding children_known_def by blast
    with hb have "x \<le> n_sets (core st)" by (auto simp: handles_bounded_def)
    with grows_surface_pass [of st vh s] show ?thesis by (simp add: grows_def)
  qed
  have ids: "set (map (tag_get_data (core st) GlobalId) (children (core st) vh)) =
             (\<lambda>s. Some (IntVal s)) ` set seen"
    using co by (simp add: children_of_def)
  have mem: "h \<in> set (children (core st) vh) \<longleftrightarrow> s \<in> set seen"
  proof
    assume h: "h \<in> set (children (core st) vh)"
    from ck ok h obtain s0 r0 where
      r0: "known_surfaces st s0 = Some r0" "handle r0 = h" and
      id0: "tag_get_data (core st) GlobalId h = Some (IntVal s0)"
      by (rule child_global_id)
    from r0 hb have "h \<le> n_sets (core st)" by (auto simp: handles_bounded_def)
    with new obtain r where r: "known_surfaces st s = Some r" by (cases "known_surfaces st s") auto
    with old have "h = handle r" by simp
    with ok r have "tag_get_data (core st) GlobalId h = Some (IntVal s)"
      unfolding surf_tags_ok_def by blast
    moreover from h have "tag_get_data (core st) GlobalId h \<in>
        set (map (tag_get_data (core st) GlobalId) (children (core st) vh))" by simp
    ultimately show "s \<in> set seen" unfolding ids by auto
  next
    assume s: "s \<in> set seen"
    with seen obtain r where r: "known_surfaces st s = Some r" by auto
    with old have hr: "h = handle r" by simp
    from s have "Some (IntVal s) \<in>
        set (map (tag_get_data (core st) GlobalId) (children (core st) vh))"
      unfolding ids by simp
    then obtain x where x: "x \<in> set (children (core st) vh)"
      "tag_get_data (core st) GlobalId x = Some (IntVal s)" by auto
    from ck ok x(1) obtain s0 r0 where
      r0: "known_surfaces st s0 = Some r0" "handle r0 = x" and
      id0: "tag_get_data (core st) GlobalId x = Some (IntVal s0)"
      by (rule child_global_id)
    from id0 x(2) have "s0 = s" by simp
    with r0 r hr have "x = h" by simp
    with x(1) show "h \<in> set (children (core st) vh)" by simp
  qed
  have "map (tag_get_data (core ?st') GlobalId) (children (core st) vh) =
        map (tag_get_data (core st) GlobalId) (children (core st) vh)"
    by (rule map_cong) (simp_all add: same)
  with co have old_ids: "map (tag_get_data (core ?st') GlobalId) (children (core st) vh) =
        map (\<lambda>s. Some (IntVal s)) (first_seen seen)"
    by (simp add: children_of_def)
  show ?thesis
    unfolding children_of_def
    by (simp add: c old_ids mem idh first_seen_snoc)
qed

lemma children_of_fold:
  assumes hb: "handles_bounded st" and ok: "surf_tags_ok st" and ck: "children_known st"
    and vh: "1 \<le> vh" "vh \<le> n_sets (core st)" and empty: "children (core st) vh = []"
  shows "children_of vh ss (fold (surface_pass vh) ss st)"
proof -
  let ?Q = "\<lambda>seen st. handles_bounded st \<and> surf_tags_ok st \<and> children_known st \<and>
              vh \<le> n_sets (core st) \<and> (\<forall>s' \<in> set seen. known_surfaces st s' \<noteq> None) \<and>
              children_of vh seen st"
  have "?Q ([] @ ss) (fold (surface_pass vh) ss st)"
  proof (rule fold_invariant [where Q = ?Q])
    fix seen s st assume q: "?Q seen st"
    let ?st' = "surface_pass vh s st"
    from q have "handles_bounded ?st'" by (simp add: handles_bounded_surface_pass)
    moreover from q have "surf_tags_ok ?st'" by (simp add: surf_tags_ok_surface_pass)
    moreover from q vh(1) have "children_known ?st'" by (simp add: children_known_surface_pass)
    moreover from q n_sets_surface_pass [of st vh s] have "vh \<le> n_sets (core ?st')" by simp
    moreover have "\<forall>s' \<in> set (seen @ [s]). known_surfaces ?st' s' \<noteq> None"
    proof
      fix s' assume "s' \<in> set (seen @ [s])"
      then have "s' \<in> set seen \<or> s' = s" by auto
      then show "known_surfaces ?st' s' \<noteq> None"
      proof
        assume "s' \<in> set seen"
        with q obtain r where "known_surfaces st s' = Some r" by auto
        from known_handle_surface_pass [OF this, of vh s] show ?thesis by auto
      next
        assume "s' = s"
        moreover obtain h where "\<exists>r. known_surfaces ?st' s = Some r \<and> handle r = h"
          by (rule surface_pass_links [of vh s st])
        ultimately show ?thesis by auto
      qed
    qed
    moreover from q have "children_of vh (seen @ [s]) ?st'"
      by (intro children_of_surface_pass) simp_all
    ultimately show "?Q (seen @ [s]) ?st'" by simp
  next
    from assms show "?Q [] st" by (simp add: children_of_def)
  qed
  then show ?thesis by simp
qed

lemma children_of_same:
  assumes co: "children_of p seen st" and ck: "children_known st" and hb: "handles_bounded st"
    and c: "children (core st') p = children (core st) p"
    and g: "grows (core st) (core st')"
  shows "children_of p seen st'"
proof -
  have "tag_get_data (core st') GlobalId x = tag_get_data (core st) GlobalId x"
    if "x \<in> set (children (core st) p)" for x
  proof -
    from ck that obtain s0 r0 where "known_surfaces st s0 = Some r0" "handle r0 = x"
      unfolding children_known_def by blast
    with hb have "x \<le> n_sets (core st)" by (auto simp: handles_bounded_def)
    with g show ?thesis by (simp add: grows_def)
  qed
  then have "map (tag_get_data (core st') GlobalId) (children (core st) p) =
        map (tag_get_data (core st) GlobalId) (children (core st) p)"
    by (intro map_cong) simp_all
  with co show ?thesis by (simp add: children_of_def c)
qed

subsection \<open>Groups\<close>

lemma groups_ok_same:
  assumes "groups_ok m st" and "grows (core st) (core st')"
    and "known_groups st' = known_groups st"
  shows "groups_ok m st'"
  unfolding groups_ok_def
proof (intro allI impI)
  fix g gh assume "known_groups st' g = Some gh"
  with assms(3) have k: "known_groups st g = Some gh" by simp
  with assms(1) have f: "1 \<le> gh" "gh \<le> n_sets (core st)"
    "tag_get_data (core st) Category gh = Some (StrVal ''Group'')"
    "tag_get_data (core st) Name gh = Some (StrVal (get_physical_name m 3 g))"
    "tag_get_data (core st) GlobalId gh = Some (IntVal g)"
    unfolding groups_ok_def by blast+
  from assms(2) f(2) have "gh \<le> n_sets (core st')"
    and "\<And>t. t \<noteq> SurfSense \<Longrightarrow> tag_get_data (core st') t gh = tag_get_data (core st) t gh"
    unfolding grows_def by auto
  with f show "1 \<le> gh \<and> gh \<le> n_sets (core st') \<and>
        tag_get_data (core st') Category gh = Some (StrVal ''Group'') \<and>
        tag_get_data (core st') Name gh = Some (StrVal (get_physical_name m 3 g)) \<and>
        tag_get_data (core st') GlobalId gh = Some (IntVal g)"
    by simp
qed

lemma groups_ok_group_pass:
  assumes "groups_ok m st"
  shows "groups_ok m (group_pass m vh g st)"
proof (cases "known_groups st g")
  case None
  have old: "gh \<noteq> Suc (n_sets (core st))" if "known_groups st g' = Some gh" for g' gh
  proof -
    from assms that have "gh \<le> n_sets (core st)" unfolding groups_ok_def by blast
    then show ?thesis by simp
  qed
  show ?thesis
    unfolding groups_ok_def
  proof (intro allI impI)
    fix g' gh assume k: "known_groups (group_pass m vh g st) g' = Some gh"
    show "1 \<le> gh \<and> gh \<le> n_sets (core (group_pass m vh g st)) \<and>
        tag_get_data (core (group_pass m vh g st)) Category gh = Some (StrVal ''Group'') \<and>
        tag_get_data (core (group_pass m vh g st)) Name gh = Some (StrVal (get_physical_name m 3 g')) \<and>
        tag_get_data (core (group_pass m vh g st)) GlobalId gh = Some (IntVal g')"
    proof (cases "g' = g")
      case True
      with k have "gh = Suc (n_sets (core st))" by (simp add: group_pass_new(3) [OF None])
      with True show ?thesis
        by (simp add: group_pass_new(1) [OF None] group_pass_new_tag [OF None])
    next
      case False
      with k have k0: "known_groups st g' = Some gh" by (simp add: group_pass_new(3) [OF None])
      with assms have f: "1 \<le> gh" "gh \<le> n_sets (core st)"
        "tag_get_data (core st) Category gh = Some (StrVal ''Group'')"
        "tag_get_data (core st) Name gh = Some (StrVal (get_physical_name m 3 g'))"
        "tag_get_data (core st) GlobalId gh = Some (IntVal g')"
        unfolding groups_ok_def by blast+
      with old [OF k0] show ?thesis
        by (simp add: group_pass_new(1) [OF None] group_pass_new_tag(1) [OF None])
    qed
  qed
next
  case (Some gh0)
  from assms show ?thesis
    unfolding groups_ok_def by (simp add: group_pass_known [OF Some])
qed

lemma known_groups_surface_pass:
  "known_groups (surface_pass vh s st) = known_groups st"
  by (cases "known_surfaces st s") (simp_all add: surface_pass_new surface_pass_known)

lemma known_groups_fold: "known_groups (fold (surface_pass vh) ss st) = known_groups st"
  by (induction ss arbitrary: st) (simp_all add: known_groups_surface_pass)

lemma contents_surface_pass:
  "set (contents (core st) h) \<subseteq> set (contents (core (surface_pass vh s st)) h)"
  by (cases "known_surfaces st s") (auto simp: surface_pass_new surface_pass_known)

lemma contents_fold:
  "set (contents (core st) h) \<subseteq> set (contents (core (fold (surface_pass vh) ss st)) h)"
proof (induction ss arbitrary: st)
  case Nil
  show ?case by simp
next
  case (Cons s ss)
  from contents_surface_pass [of st h vh s] Cons.IH [of "surface_pass vh s st"]
  show ?case by auto
qed

lemma contents_group_pass:
  "set (contents (core st) h) \<subseteq> set (contents (core (group_pass m vh g st)) h)"
  by (cases "known_groups st g") (auto simp: group_pass_new group_pass_known)

lemma member_of_same:
  assumes "member_of m v vh st" and "known_groups st \<subseteq>\<^sub>m known_groups st'"
    and "\<And>h. set (contents (core st) h) \<subseteq> set (contents (core st') h)"
  shows "member_of m v vh st'"
proof -
  from assms(1) obtain gh where
    k: "known_groups st (get_physical_groups_for_entity m 3 v ! 0) = Some gh" and
    c: "MeshSet vh \<in> set (contents (core st) gh)"
    unfolding member_of_def by blast
  from k assms(2) have "known_groups st' (get_physical_groups_for_entity m 3 v ! 0) = Some gh"
    by (auto simp: map_le_def dom_def)
  moreover from c assms(3) have "MeshSet vh \<in> set (contents (core st') gh)" by blast
  ultimately show ?thesis unfolding member_of_def by blast
qed

lemma known_groups_group_pass: "known_groups st \<subseteq>\<^sub>m known_groups (group_pass m vh g st)"
  by (cases "known_groups st g") (auto simp: group_pass_new group_pass_known map_le_def)

lemma member_of_group_pass:
  "member_of m v vh (group_pass m vh (get_physical_groups_for_entity m 3 v ! 0) st)"
  unfolding member_of_def
  by (cases "known_groups st (get_physical_groups_for_entity m 3 v ! 0)")
    (simp_all add: group_pass_new group_pass_known)

subsection \<open>One pass of the volume loop\<close>

lemma model_inv_volume_pass:
  assumes inv: "model_inv m pre st"
  shows "model_inv m (pre @ [v]) (volume_pass m (length pre, v) st)"
proof -
  let ?h = "Suc (n_sets (core st))"
  let ?g = "get_physical_groups_for_entity m 3 v ! 0"
  let ?ss = "snd (get_adjacencies m 3 v)"
  let ?st1 = "new_volume (length pre) st"
  let ?st2 = "group_pass m ?h ?g ?st1"
  let ?st3 = "fold (surface_pass ?h) ?ss ?st2"
  have st3: "volume_pass m (length pre, v) st = ?st3" by (simp add: volume_pass_def)
  from inv have vi: "vol_inv pre st" and ok: "surf_tags_ok st" and ck: "children_known st"
    and lk: "links_ok (core st)" and gk: "groups_ok m st"
    and each: "\<forall>i < length pre.
        member_of m (pre ! i) (volumes (core st) ! i) st \<and>
        children_of (volumes (core st) ! i) (snd (get_adjacencies m 3 (pre ! i))) st"
    by (simp_all add: model_inv_def)
  from vi have hb: "handles_bounded st" and len: "length (volumes (core st)) = length pre"
    by (simp_all add: vol_inv_def vol_ids_def)
  have vi3: "vol_inv (pre @ [v]) ?st3"
    using vol_inv_process_volume [OF vi, of v m] by (simp add: st3)
  have hb1: "handles_bounded ?st1" using hb by (rule handles_bounded_new_volume)
  have hb2: "handles_bounded ?st2" using hb1 by (rule handles_bounded_group_pass)
  have ok1: "surf_tags_ok ?st1" using ok hb by (rule surf_tags_ok_new_volume)
  have ok2: "surf_tags_ok ?st2" using ok1 hb1 by (rule surf_tags_ok_group_pass)
  have ok3: "surf_tags_ok ?st3" using hb2 ok2 by (rule surf_tags_ok_fold)
  have ck1: "children_known ?st1" using ck by (rule children_known_new_volume)
  have ck2: "children_known ?st2" using ck1 by (rule children_known_group_pass)
  have n1: "n_sets (core ?st1) = ?h" by (simp add: new_volume_obs)
  have n2: "?h \<le> n_sets (core ?st2)" using n_sets_group_pass [of ?st1 m ?h ?g] n1 by simp
  have h1: "1 \<le> ?h" by simp
  have ck3: "children_known ?st3" using ck2 h1 n2 by (rule children_known_fold)
  have lk1: "links_ok (core ?st1)" using lk by (rule links_ok_same) (simp_all add: new_volume_obs)
  have lk2: "links_ok (core ?st2)" using lk1 by (rule links_ok_same) (simp_all add: group_pass_frame)
  have lk3: "links_ok (core ?st3)" using lk2 by (rule links_ok_fold)
  have gk1: "groups_ok m ?st1"
    using gk grows_new_volume by (rule groups_ok_same) (simp add: new_volume_obs)
  have gk2: "groups_ok m ?st2" using gk1 by (rule groups_ok_group_pass)
  have gk3: "groups_ok m ?st3"
    using gk2 grows_fold by (rule groups_ok_same) (simp add: known_groups_fold)
  have vols: "volumes (core ?st3) = volumes (core st) @ [?h]"
    by (simp add: volumes_fold volumes_group_pass [OF hb1] volumes_new_volume)
  have c2: "children (core ?st2) = children (core st)"
    by (simp add: group_pass_frame new_volume_obs)
  have empty: "children (core ?st2) ?h = []"
  proof (rule ccontr)
    assume "children (core ?st2) ?h \<noteq> []"
    then obtain x where "x \<in> set (children (core st) ?h)"
      unfolding c2 by (cases "children (core st) ?h") auto
    with ck have "?h \<le> n_sets (core st)" unfolding children_known_def by blast
    then show False by simp
  qed
  have g13: "grows (core st) (core ?st3)"
    by (rule grows_trans [OF grows_new_volume grows_trans [OF grows_group_pass grows_fold]])
  have kg: "known_groups st \<subseteq>\<^sub>m known_groups ?st3"
    using known_groups_group_pass [of ?st1 m ?h ?g]
    by (simp add: known_groups_fold new_volume_obs)
  have ct: "set (contents (core st) x) \<subseteq> set (contents (core ?st3) x)" for x
    using contents_group_pass [of ?st1 x m ?h ?g] contents_fold [of ?st2 x ?h ?ss]
    by (auto simp: new_volume_obs)
  have new_m: "member_of m v ?h ?st3"
    using member_of_group_pass [of m v ?h ?st1]
    by (rule member_of_same) (simp_all add: known_groups_fold contents_fold)
  have new_c: "children_of ?h ?ss ?st3"
    using hb2 ok2 ck2 h1 n2 empty by (rule children_of_fold)
  have "member_of m ((pre @ [v]) ! i) (volumes (core ?st3) ! i) ?st3 \<and>
        children_of (volumes (core ?st3) ! i) (snd (get_adjacencies m 3 ((pre @ [v]) ! i))) ?st3"
    if i: "i < length (pre @ [v])" for i
  proof (cases "i < length pre")
    case True
    let ?p = "volumes (core st) ! i"
    from True len have "?p \<in> set (volumes (core st))" by simp
    then have "?p \<le> n_sets (core st)" using volumes_bounds by blast
    then have ne: "?p \<noteq> ?h" by simp
    from each True have m0: "member_of m (pre ! i) ?p st"
      and c0: "children_of ?p (snd (get_adjacencies m 3 (pre ! i))) st" by simp_all
    have "member_of m (pre ! i) ?p ?st3" using m0 kg ct by (rule member_of_same)
    moreover have "children_of ?p (snd (get_adjacencies m 3 (pre ! i))) ?st3"
      using c0 ck hb _ g13
      by (rule children_of_same) (simp add: children_fold_other [OF ne] c2)
    ultimately show ?thesis using True len by (simp add: vols nth_append)
  next
    case False
    with i have "i = length pre" by simp
    with new_m new_c len show ?thesis by (simp add: vols nth_append)
  qed
  with vi3 ok3 ck3 lk3 gk3 show ?thesis
    unfolding st3 model_inv_def by blast
qed

lemma model_inv_initial: "model_inv m [] initial_state"
proof -
  have "surf_tags_ok initial_state"
    by (simp add: surf_tags_ok_def initial_state_def new_core_def surfaces_def
        get_entities_of_geom_dimension_def)
  moreover have "children_known initial_state"
    by (simp add: children_known_def initial_state_def new_core_def)
  moreover have "links_ok (core initial_state)"
    by (simp add: links_ok_def initial_state_def new_core_def)
  moreover have "groups_ok m initial_state"
    by (simp add: groups_ok_def initial_state_def)
  ultimately show ?thesis
    using vol_inv_initial by (simp add: model_inv_def)
qed

lemma model_inv_final:
  assumes "make_from_mesh_body raises m = Inr c"
  obtains st where "model_inv m (volume_tags m) st" and "c = finish (core st)"
proof -
  from assms obtain st where
    run: "process_volumes raises m (enumerate 0 (volume_tags m)) initial_state = Inr st" and
    c: "c = finish (core st)"
    by (rule make_from_mesh_body_Inr)
  have "model_inv m ([] @ volume_tags m) st"
    by (rule process_volumes_invariant [where P = "model_inv m" and m = m and pre = "[]"
          and st = initial_state and raises = raises])
      (simp_all add: model_inv_volume_pass model_inv_initial run)
  with c show ?thesis by (intro that [of st]) simp_all
qed

subsection \<open>The model a build returns\<close>

lemma finish_frame:
  assumes "tags_bounded c"
  shows "volumes (finish c) = volumes c" and "surfaces (finish c) = surfaces c"
    and "tag_get_data (finish c) GlobalId = tag_get_data c GlobalId"
    and "tag_get_data (finish c) Category = tag_get_data c Category"
    and "tag_get_data (finish c) Name = tag_get_data c Name"
    and "tag_get_data (finish c) SurfSense = tag_get_data c SurfSense"
    and "adjacent_surfaces (finish c) = children c"
    and "adjacent_volumes (finish c) = parents c"
  unfolding volumes_def surfaces_def
  by (simp_all add: geom_dimension_finish [OF assms] finish_obs fun_eq_iff
      adjacent_surfaces_def adjacent_volumes_def)

lemma model_volume_links:
  assumes "make_from_mesh_body raises m = Inr c" and i: "i < length (volume_tags m)"
  shows "map (tag_get_data c GlobalId) (adjacent_surfaces c (volumes c ! i)) =
           map (\<lambda>s. Some (IntVal s))
             (first_seen (snd (get_adjacencies m 3 (volume_tags m ! i))))"
    and "\<exists>gh. tag_get_data c Category gh = Some (StrVal ''Group'') \<and>
              tag_get_data c Name gh = Some (StrVal (get_physical_name m 3
                (get_physical_groups_for_entity m 3 (volume_tags m ! i) ! 0))) \<and>
              tag_get_data c GlobalId gh =
                Some (IntVal (get_physical_groups_for_entity m 3 (volume_tags m ! i) ! 0)) \<and>
              MeshSet (volumes c ! i) \<in> set (contents c gh)"
proof -
  from assms(1) obtain st where inv: "model_inv m (volume_tags m) st" and
    c: "c = finish (core st)"
    by (rule model_inv_final)
  from inv have tb: "tags_bounded (core st)"
    by (simp add: model_inv_def vol_inv_def handles_bounded_def)
  from inv i have mem: "member_of m (volume_tags m ! i) (volumes (core st) ! i) st"
    and ch: "children_of (volumes (core st) ! i)
               (snd (get_adjacencies m 3 (volume_tags m ! i))) st"
    and gk: "groups_ok m st"
    by (simp_all add: model_inv_def)
  from ch show "map (tag_get_data c GlobalId) (adjacent_surfaces c (volumes c ! i)) =
           map (\<lambda>s. Some (IntVal s))
             (first_seen (snd (get_adjacencies m 3 (volume_tags m ! i))))"
    unfolding c by (simp add: finish_frame [OF tb] children_of_def)
  let ?g = "get_physical_groups_for_entity m 3 (volume_tags m ! i) ! 0"
  from mem obtain gh where k: "known_groups st ?g = Some gh" and
    in_gh: "MeshSet (volumes (core st) ! i) \<in> set (contents (core st) gh)"
    unfolding member_of_def by blast
  from gk k have f: "gh \<le> n_sets (core st)"
    "tag_get_data (core st) Category gh = Some (StrVal ''Group'')"
    "tag_get_data (core st) Name gh = Some (StrVal (get_physical_name m 3 ?g))"
    "tag_get_data (core st) GlobalId gh = Some (IntVal ?g)"
    unfolding groups_ok_def by blast+
  from f(1) have "gh \<noteq> Suc (n_sets (core st))" by simp
  then have "contents c gh = contents (core st) gh" unfolding c by (simp add: finish_obs)
  with f in_gh
  have "tag_get_data c Category gh = Some (StrVal ''Group'') \<and>
        tag_get_data c Name gh = Some (StrVal (get_physical_name m 3 ?g)) \<and>
        tag_get_data c GlobalId gh = Some (IntVal ?g) \<and>
        MeshSet (volumes c ! i) \<in> set (contents c gh)"
    unfolding c by (simp add: finish_frame [OF tb])
  then show "\<exists>gh. tag_get_data c Category gh = Some (StrVal ''Group'') \<and>
              tag_get_data c Name gh = Some (StrVal (get_physical_name m 3 ?g)) \<and>
              tag_get_data c GlobalId gh = Some (IntVal ?g) \<and>
              MeshSet (volumes c ! i) \<in> set (contents c gh)" ..
qed

subsection \<open>Surfaces and volumes of the model\<close>

lemma known_surface_in_surfaces:
  assumes "surf_tags_ok st" and "handles_bounded st" and "known_surfaces st s = Some r"
  shows "handle r \<in> set (surfaces (core st))"
proof -
  from assms have "tag_get_data (core st) GeomDimension (handle r) = Some (IntVal 2)"
    unfolding surf_tags_ok_def by blast
  moreover from assms(2,3) have "1 \<le> handle r" "handle r \<le> n_sets (core st)"
    unfolding handles_bounded_def by blast+
  ultimately show ?thesis
    by (simp add: surfaces_def get_entities_of_geom_dimension_def del: upt_Suc)
qed

lemma model_children_surfaces:
  assumes "make_from_mesh_body raises m = Inr c" and "x \<in> set (adjacent_surfaces c p)"
  shows "x \<in> set (surfaces c)"
proof -
  from assms(1) obtain st where inv: "model_inv m (volume_tags m) st" and
    c: "c = finish (core st)"
    by (rule model_inv_final)
  from inv have hb: "handles_bounded st" and ok: "surf_tags_ok st" and ck: "children_known st"
    by (simp_all add: model_inv_def vol_inv_def)
  then have tb: "tags_bounded (core st)" by (simp add: handles_bounded_def)
  from assms(2) have "x \<in> set (children (core st) p)"
    unfolding c by (simp add: finish_frame [OF tb])
  with ck obtain s r where "known_surfaces st s = Some r" "handle r = x"
    unfolding children_known_def by blast
  with known_surface_in_surfaces [OF ok hb] have "x \<in> set (surfaces (core st))" by blast
  then show ?thesis unfolding c by (simp add: finish_frame [OF tb])
qed

lemma model_links:
  assumes "make_from_mesh_body raises m = Inr c"
  shows "S \<in> set (adjacent_surfaces c V) \<longleftrightarrow> V \<in> set (adjacent_volumes c S)"
proof -
  from assms(1) obtain st where inv: "model_inv m (volume_tags m) st" and
    c: "c = finish (core st)"
    by (rule model_inv_final)
  from inv have tb: "tags_bounded (core st)" and lk: "links_ok (core st)"
    by (simp_all add: model_inv_def vol_inv_def handles_bounded_def)
  from lk show ?thesis
    unfolding c by (simp add: finish_frame [OF tb] links_ok_def)
qed

lemma model_surface_ids:
  assumes "make_from_mesh_body raises m = Inr c"
    and "S \<in> set (surfaces c)" and "S' \<in> set (surfaces c)"
    and "tag_get_data c GlobalId S = tag_get_data c GlobalId S'"
  shows "S = S'"
proof -
  from assms(1) obtain st where inv: "model_inv m (volume_tags m) st" and
    c: "c = finish (core st)"
    by (rule model_inv_final)
  from inv have tb: "tags_bounded (core st)" and ok: "surf_tags_ok st"
    by (simp_all add: model_inv_def vol_inv_def handles_bounded_def)
  from assms(2,3) have "S \<in> set (surfaces (core st))" "S' \<in> set (surfaces (core st))"
    unfolding c by (simp_all add: finish_frame [OF tb])
  with ok obtain s r s' r' where
    r: "known_surfaces st s = Some r" "handle r = S" and
    r': "known_surfaces st s' = Some r'" "handle r' = S'"
    unfolding surf_tags_ok_def by blast
  with ok have "tag_get_data (core st) GlobalId S = Some (IntVal s)"
    "tag_get_data (core st) GlobalId S' = Some (IntVal s')"
    unfolding surf_tags_ok_def by blast+
  with assms(4) have "s = s'" unfolding c by (simp add: finish_frame [OF tb])
  with r r' show ?thesis by simp
qed

subsection \<open>The file set\<close>

lemma store_clean_volume_pass:
  assumes inv: "model_inv m pre st" and sc: "store_clean st"
  shows "store_clean (volume_pass m (length pre, v) st)"
proof -
  let ?h = "Suc (n_sets (core st))"
  let ?g = "get_physical_groups_for_entity m 3 v ! 0"
  let ?st1 = "new_volume (length pre) st"
  let ?st2 = "group_pass m ?h ?g ?st1"
  have sc1: "store_clean ?st1"
    using sc by (simp add: store_clean_def new_volume_obs new_volume_tag)
  from inv have "groups_ok m st" by (simp add: model_inv_def)
  then have gk1: "groups_ok m ?st1"
    using grows_new_volume by (rule groups_ok_same) (simp add: new_volume_obs)
  have sc2: "store_clean ?st2"
  proof (cases "known_groups ?st1 ?g")
    case None
    from sc1 show ?thesis
      by (simp add: store_clean_def group_pass_new [OF None] group_pass_new_tag [OF None])
  next
    case (Some gh)
    with gk1 have "gh \<le> n_sets (core ?st1)" unfolding groups_ok_def by blast
    with sc1 show ?thesis
      by (auto simp: store_clean_def group_pass_known [OF Some])
  qed
  have step: "store_clean (surface_pass ?h s st')" if "store_clean st'" for s st'
  proof (cases "known_surfaces st' s")
    case None
    from that show ?thesis
      by (simp add: store_clean_def surface_pass_new [OF None] surface_pass_new_tag [OF None])
  next
    case (Some r)
    from that show ?thesis
      by (simp add: store_clean_def surface_pass_known [OF Some] surface_pass_known_tag [OF Some])
  qed
  have "store_clean (fold (surface_pass ?h) (snd (get_adjacencies m 3 v)) ?st2)"
    by (rule fold_invariant [where Q = "\<lambda>seen st. store_clean st" and seen = "[]", simplified])
      (simp_all add: step sc2)
  then show ?thesis by (simp add: volume_pass_def)
qed

lemma store_clean_final:
  assumes "make_from_mesh_body raises m = Inr c"
  obtains st where "model_inv m (volume_tags m) st" and "store_clean st"
    and "c = finish (core st)"
proof -
  from assms obtain st where
    run: "process_volumes raises m (enumerate 0 (volume_tags m)) initial_state = Inr st" and
    c: "c = finish (core st)"
    by (rule make_from_mesh_body_Inr)
  have init: "store_clean initial_state"
    by (simp add: store_clean_def initial_state_def new_core_def tag_get_data_def)
  have "model_inv m ([] @ volume_tags m) st \<and> store_clean st"
    by (rule process_volumes_invariant
          [where P = "\<lambda>pre st. model_inv m pre st \<and> store_clean st" and m = m and pre = "[]"
            and st = initial_state and raises = raises])
      (simp_all add: model_inv_volume_pass store_clean_volume_pass model_inv_initial init run)
  with c show ?thesis by (intro that [of st]) simp_all
qed

lemma file_set:
  assumes "make_from_mesh_body raises m = Inr c"
  shows "tag_get_data c FacetingTol h \<noteq> None \<longleftrightarrow> h = n_sets c"
    and "tag_get_data c FacetingTol (n_sets c) = Some (DoubleVal faceting_tol_value)"
    and "set (contents c (n_sets c)) = set (get_entities_by_handle c) - {MeshSet (n_sets c)}"
    and "x \<in> set (volumes c) \<union> set (surfaces c) \<Longrightarrow> x < n_sets c"
proof -
  from assms obtain st where inv: "model_inv m (volume_tags m) st" and sc: "store_clean st"
    and c: "c = finish (core st)"
    by (rule store_clean_final)
  from inv have tb: "tags_bounded (core st)"
    by (simp add: model_inv_def vol_inv_def handles_bounded_def)
  have n: "n_sets c = Suc (n_sets (core st))" unfolding c by (simp add: finish_obs)
  show "tag_get_data c FacetingTol (n_sets c) = Some (DoubleVal faceting_tol_value)"
    unfolding n unfolding c by (simp add: finish_obs)
  show "tag_get_data c FacetingTol h \<noteq> None \<longleftrightarrow> h = n_sets c"
  proof (cases "h = Suc (n_sets (core st))")
    case True
    then show ?thesis unfolding n unfolding c by (simp add: finish_obs)
  next
    case False
    with sc show ?thesis unfolding n unfolding c by (simp add: finish_obs store_clean_def)
  qed
  from sc have "contents (core st) (Suc (n_sets (core st))) = []"
    by (simp add: store_clean_def)
  then have "set (contents c (n_sets c)) = set (get_entities_by_handle (core st))"
    unfolding n unfolding c by (simp add: finish_obs)
  also have "\<dots> = set (get_entities_by_handle c) - {MeshSet (n_sets c)}"
    unfolding n unfolding c by (auto simp: get_entities_by_handle_def finish_obs)
  finally show "set (contents c (n_sets c)) =
      set (get_entities_by_handle c) - {MeshSet (n_sets c)}" .
  assume "x \<in> set (volumes c) \<union> set (surfaces c)"
  then have "x \<in> set (volumes (core st)) \<union> set (surfaces (core st))"
    unfolding c by (simp add: finish_frame [OF tb])
  then have "x \<le> n_sets (core st)"
    unfolding volumes_def surfaces_def using geom_dimension_bounds by blast
  then show "x < n_sets c" unfolding n by simp
qed

subsection \<open>The mesh context\<close>




subsection \<open>Encounters\<close>

lemma encounters_Nil [simp]: "encounters m [] = []"
  by (simp add: encounters_def)

lemma encounters_snoc:
  "encounters m (pre @ [v]) =
     encounters m pre @ map (Pair (length pre)) (snd (get_adjacencies m 3 v))"
  by (simp add: encounters_def enumerate_append_eq)

lemma positions_simps [simp]:
  "positions [] s = []"
  "positions (E @ E') s = positions E s @ positions E' s"
  "positions [(k, s')] s = (if s' = s then [k] else [])"
  by (simp_all add: positions_def)

lemma positions_empty: "positions E s = [] \<longleftrightarrow> s \<notin> snd ` set E"
  by (auto simp: positions_def filter_empty_conv)

lemma positions_bound:
  assumes "i \<in> set (positions E s)"
  shows "\<exists>p \<in> set E. fst p = i"
  using assms by (auto simp: positions_def)

lemma map_snd_encounters:
  "map snd (encounters m vts) = concat (map (\<lambda>v. snd (get_adjacencies m 3 v)) vts)"
proof (induction vts rule: rev_induct)
  case Nil
  show ?case by simp
next
  case (snoc v vts)
  then show ?case by (simp add: encounters_snoc comp_def)
qed



subsection \<open>The sense of a surface\<close>

lemma sense_ok_surface_pass:
  assumes so: "sense_ok E st" and k: "k < length (volumes (core st))"
    and vh: "vh = volumes (core st) ! k"
  shows "sense_ok (E @ [(k, s)]) (surface_pass vh s st)"
proof -
  let ?st' = "surface_pass vh s st"
  let ?vols = "volumes (core st)"
  have v: "volumes (core ?st') = ?vols" by (rule volumes_surface_pass)
  from so have b: "\<forall>p \<in> set E. fst p < length ?vols"
    and none: "\<And>s'. known_surfaces st s' = None \<Longrightarrow> positions E s' = []"
    and some: "\<And>s' r. known_surfaces st s' = Some r \<Longrightarrow>
        positions E s' \<noteq> [] \<and> sense_data r = sense_of ?vols (positions E s')"
    by (simp_all add: sense_ok_def)
  show ?thesis
    unfolding sense_ok_def v
  proof (intro conjI allI impI ballI)
    fix p assume "p \<in> set (E @ [(k, s)])"
    with b k show "fst p < length ?vols" by auto
  next
    fix s' assume n': "known_surfaces ?st' s' = None"
    show "positions (E @ [(k, s)]) s' = []"
    proof (cases "known_surfaces st s")
      case None
      with n' have "s' \<noteq> s" "known_surfaces st s' = None"
        by (auto simp: surface_pass_new(2) [OF None] split: if_splits)
      with none show ?thesis by simp
    next
      case (Some r)
      with n' have "s' \<noteq> s" "known_surfaces st s' = None"
        by (auto simp: surface_pass_known(2) [OF Some] split: if_splits)
      with none show ?thesis by simp
    qed
  next
    fix s' r' assume k': "known_surfaces ?st' s' = Some r'"
    show "positions (E @ [(k, s)]) s' \<noteq> []"
      and "sense_data r' = sense_of ?vols (positions (E @ [(k, s)]) s')"
    proof -
      have "positions (E @ [(k, s)]) s' \<noteq> [] \<and>
            sense_data r' = sense_of ?vols (positions (E @ [(k, s)]) s')"
      proof (cases "s' = s")
        case False
        have "known_surfaces st s' = Some r'"
        proof (cases "known_surfaces st s")
          case None
          with k' False show ?thesis by (simp add: surface_pass_new(2) [OF None])
        next
          case (Some r)
          with k' False show ?thesis by (simp add: surface_pass_known(2) [OF Some])
        qed
        from some [OF this] False show ?thesis by simp
      next
        case True
        show ?thesis
        proof (cases "known_surfaces st s")
          case None
          with k' True have "r' = \<lparr> handle = Suc (n_sets (core st)), forward_volume = vh,
              reverse_volume = 0 \<rparr>"
            by (simp add: surface_pass_new(2) [OF None])
          moreover from none [OF None] have "positions (E @ [(k, s)]) s = [k]" by simp
          ultimately show ?thesis
            using True vh by (simp add: sense_data_def sense_of_def)
        next
          case (Some r)
          with k' True have r': "r' = r\<lparr> reverse_volume := vh \<rparr>"
            by (simp add: surface_pass_known(2) [OF Some])
          from some [OF Some] have e: "positions E s \<noteq> []"
            and sd: "sense_data r = sense_of ?vols (positions E s)" by simp_all
          from sd have "forward_volume r = ?vols ! hd (positions E s)"
            by (simp add: sense_data_def sense_of_def)
          with e show ?thesis
            using True vh r' by (simp add: sense_data_def sense_of_def)
        qed
      qed
      then show "positions (E @ [(k, s)]) s' \<noteq> []"
        and "sense_data r' = sense_of ?vols (positions (E @ [(k, s)]) s')" by simp_all
    qed
  qed
qed

lemma sense_of_append:
  assumes "e \<noteq> []" and "\<forall>i \<in> set e. i < length vols"
  shows "sense_of (vols @ ws) e = sense_of vols e"
proof -
  from assms have "hd e < length vols" "last e < length vols" by simp_all
  then show ?thesis by (simp add: sense_of_def nth_append)
qed

lemma sense_ok_same:
  assumes so: "sense_ok E st" and ks: "known_surfaces st' = known_surfaces st"
    and v: "volumes (core st') = volumes (core st) @ ws"
  shows "sense_ok E st'"
proof -
  from so have b: "\<forall>p \<in> set E. fst p < length (volumes (core st))"
    by (simp add: sense_ok_def)
  have "sense_of (volumes (core st) @ ws) (positions E s) =
        sense_of (volumes (core st)) (positions E s)" if "positions E s \<noteq> []" for s
  proof (rule sense_of_append [OF that])
    show "\<forall>i \<in> set (positions E s). i < length (volumes (core st))"
      using b positions_bound [of _ E s] by auto
  qed
  with so show ?thesis
    unfolding sense_ok_def ks v by auto
qed

lemma sense_ok_fold:
  assumes so: "sense_ok E st" and k: "k < length (volumes (core st))"
    and vh: "vh = volumes (core st) ! k"
  shows "sense_ok (E @ map (Pair k) ss) (fold (surface_pass vh) ss st)"
proof -
  let ?vols = "volumes (core st)"
  let ?Q = "\<lambda>seen st'. sense_ok (E @ map (Pair k) seen) st' \<and> volumes (core st') = ?vols"
  have "?Q ([] @ ss) (fold (surface_pass vh) ss st)"
  proof (rule fold_invariant [where Q = ?Q])
    fix seen s st' assume q: "?Q seen st'"
    then have "sense_ok ((E @ map (Pair k) seen) @ [(k, s)]) (surface_pass vh s st')"
      using k vh by (intro sense_ok_surface_pass) simp_all
    with q show "?Q (seen @ [s]) (surface_pass vh s st')"
      by (simp add: volumes_surface_pass)
  next
    from so show "?Q [] st" by simp
  qed
  then show ?thesis by simp
qed

lemma sense_ok_known:
  assumes "sense_ok E st"
  shows "known_surfaces st s = None \<longleftrightarrow> s \<notin> snd ` set E"
proof (cases "known_surfaces st s")
  case None
  with assms have "positions E s = []" by (simp add: sense_ok_def)
  with None show ?thesis by (simp add: positions_empty)
next
  case (Some r)
  with assms have "positions E s \<noteq> []" by (simp add: sense_ok_def)
  with Some show ?thesis by (simp add: positions_empty)
qed

subsection \<open>The loads\<close>

lemma loads_ok_surface_pass:
  assumes lo: "loads_ok E st" and so: "sense_ok E st"
  shows "loads_ok (E @ [(k, s)]) (surface_pass vh s st)"
proof -
  let ?st' = "surface_pass vh s st"
  from lo have l1: "map fst (loaded (core st)) = first_seen (map snd E)"
    and l2: "\<forall>p \<in> set (loaded (core st)).
        \<exists>r. known_surfaces st (fst p) = Some r \<and> handle r = snd p"
    and l3: "\<forall>i < length (loaded (core st)).
        FacetBatch i \<in> set (contents (core st) (snd (loaded (core st) ! i)))"
    by (simp_all add: loads_ok_def)
  have keep: "\<exists>r. known_surfaces ?st' (fst p) = Some r \<and> handle r = snd p"
    if "p \<in> set (loaded (core st))" for p
  proof -
    from l2 that obtain r where "known_surfaces st (fst p) = Some r" "handle r = snd p" by blast
    with known_handle_surface_pass [of st "fst p" r vh s] show ?thesis by auto
  qed
  have grow: "FacetBatch i \<in> set (contents (core ?st') (snd (loaded (core st) ! i)))"
    if "i < length (loaded (core st))" for i
    using l3 that contents_surface_pass [of st _ vh s] by blast
  show ?thesis
  proof (cases "known_surfaces st s")
    case None
    with so have new: "s \<notin> set (map snd E)" by (simp add: sense_ok_known)
    have ld: "loaded (core ?st') = loaded (core st) @ [(s, Suc (n_sets (core st)))]"
      by (rule surface_pass_new(4) [OF None])
    have "map fst (loaded (core ?st')) = first_seen (map snd (E @ [(k, s)]))"
      using new l1 by (simp add: ld first_seen_snoc)
    moreover have "\<forall>p \<in> set (loaded (core ?st')).
        \<exists>r. known_surfaces ?st' (fst p) = Some r \<and> handle r = snd p"
    proof
      fix p assume "p \<in> set (loaded (core ?st'))"
      then have "p \<in> set (loaded (core st)) \<or> p = (s, Suc (n_sets (core st)))"
        by (auto simp: ld)
      then show "\<exists>r. known_surfaces ?st' (fst p) = Some r \<and> handle r = snd p"
      proof
        assume "p \<in> set (loaded (core st))"
        then show ?thesis by (rule keep)
      next
        assume "p = (s, Suc (n_sets (core st)))"
        then show ?thesis by (simp add: surface_pass_new(2) [OF None])
      qed
    qed
    moreover have "\<forall>i < length (loaded (core ?st')).
        FacetBatch i \<in> set (contents (core ?st') (snd (loaded (core ?st') ! i)))"
    proof (intro allI impI)
      fix i assume "i < length (loaded (core ?st'))"
      then have "i < length (loaded (core st)) \<or> i = length (loaded (core st))"
        by (auto simp: ld)
      then show "FacetBatch i \<in> set (contents (core ?st') (snd (loaded (core ?st') ! i)))"
      proof
        assume i: "i < length (loaded (core st))"
        with grow [OF i] show ?thesis by (simp add: ld nth_append)
      next
        assume "i = length (loaded (core st))"
        then show ?thesis by (simp add: ld surface_pass_new(5) [OF None])
      qed
    qed
    ultimately show ?thesis by (simp add: loads_ok_def)
  next
    case (Some r)
    with so have old: "s \<in> set (map snd E)" using sense_ok_known [of E st s] by simp
    have ld: "loaded (core ?st') = loaded (core st)"
      by (rule surface_pass_known(4) [OF Some])
    have "map fst (loaded (core ?st')) = first_seen (map snd (E @ [(k, s)]))"
      using old l1 by (simp add: ld first_seen_snoc)
    moreover have "\<forall>p \<in> set (loaded (core ?st')).
        \<exists>r. known_surfaces ?st' (fst p) = Some r \<and> handle r = snd p"
      unfolding ld using keep by blast
    moreover have "\<forall>i < length (loaded (core ?st')).
        FacetBatch i \<in> set (contents (core ?st') (snd (loaded (core ?st') ! i)))"
      unfolding ld using grow by blast
    ultimately show ?thesis by (simp add: loads_ok_def)
  qed
qed

lemma loads_ok_same:
  assumes "loads_ok E st" and "loaded (core st') = loaded (core st)"
    and "known_surfaces st' = known_surfaces st"
    and "\<And>h. set (contents (core st) h) \<subseteq> set (contents (core st') h)"
  shows "loads_ok E st'"
  using assms unfolding loads_ok_def by (simp add: subset_iff)

lemma loads_sense_fold:
  assumes so: "sense_ok E st" and lo: "loads_ok E st" and k: "k < length (volumes (core st))"
    and vh: "vh = volumes (core st) ! k"
  shows "sense_ok (E @ map (Pair k) ss) (fold (surface_pass vh) ss st) \<and>
         loads_ok (E @ map (Pair k) ss) (fold (surface_pass vh) ss st)"
proof -
  let ?vols = "volumes (core st)"
  let ?Q = "\<lambda>seen st'. sense_ok (E @ map (Pair k) seen) st' \<and>
              loads_ok (E @ map (Pair k) seen) st' \<and> volumes (core st') = ?vols"
  have "?Q ([] @ ss) (fold (surface_pass vh) ss st)"
  proof (rule fold_invariant [where Q = ?Q])
    fix seen s st' assume q: "?Q seen st'"
    then have "sense_ok ((E @ map (Pair k) seen) @ [(k, s)]) (surface_pass vh s st')"
      using k vh by (intro sense_ok_surface_pass) simp_all
    moreover from q
    have "loads_ok ((E @ map (Pair k) seen) @ [(k, s)]) (surface_pass vh s st')"
      by (intro loads_ok_surface_pass) simp_all
    ultimately show "?Q (seen @ [s]) (surface_pass vh s st')"
      using q by (simp add: volumes_surface_pass)
  next
    from so lo show "?Q [] st" by simp
  qed
  then show ?thesis by simp
qed

subsection \<open>The writes of the sense tag\<close>

lemma writes_ok_surface_pass:
  assumes "writes_ok (core st)"
  shows "writes_ok (core (surface_pass vh s st))"
proof (cases "known_surfaces st s")
  case None
  from assms show ?thesis
    by (simp add: surface_pass_None_eq [OF None] writes_ok_def sense_writes_def)
next
  case (Some r)
  from assms show ?thesis
    by (simp add: surface_pass_Some_eq [OF Some] writes_ok_def sense_writes_def)
qed

lemma writes_ok_fold:
  assumes "writes_ok (core st)"
  shows "writes_ok (core (fold (surface_pass vh) ss st))"
  by (rule fold_invariant [where Q = "\<lambda>seen st. writes_ok (core st)" and seen = "[]", simplified])
    (simp_all add: assms writes_ok_surface_pass)

lemma writes_ok_new_volume:
  "writes_ok (core st) \<Longrightarrow> writes_ok (core (new_volume i st))"
  by (simp add: new_volume_def writes_ok_def sense_writes_def)

lemma writes_ok_group_pass:
  assumes "writes_ok (core st)"
  shows "writes_ok (core (group_pass m vh g st))"
proof (cases "known_groups st g")
  case None
  from assms show ?thesis
    by (simp add: group_pass_None_eq [OF None] writes_ok_def sense_writes_def)
next
  case (Some gh)
  from assms show ?thesis
    by (simp add: group_pass_Some_eq [OF Some] writes_ok_def sense_writes_def)
qed

subsection \<open>Group sets\<close>

lemma groups_complete_surface_pass:
  assumes gc: "groups_complete st" and hb: "handles_bounded st"
  shows "groups_complete (surface_pass vh s st)"
proof (cases "known_surfaces st s")
  case None
  show ?thesis
    unfolding groups_complete_def
  proof (intro allI impI)
    fix h assume c: "tag_get_data (core (surface_pass vh s st)) Category h = Some (StrVal ''Group'')"
    have "h \<noteq> Suc (n_sets (core st))"
      using c by (auto simp: surface_pass_new_tag(3) [OF None])
    with c have "tag_get_data (core st) Category h = Some (StrVal ''Group'')"
      by (simp add: surface_pass_new_tag(1) [OF None])
    with gc show "\<exists>g. known_groups (surface_pass vh s st) g = Some h"
      by (simp add: groups_complete_def known_groups_surface_pass)
  qed
next
  case (Some r)
  from gc show ?thesis
    by (simp add: groups_complete_def known_groups_surface_pass
        surface_pass_known_tag(2) [OF Some])
qed

lemma groups_complete_fold:
  assumes "groups_complete st" and "handles_bounded st"
  shows "groups_complete (fold (surface_pass vh) ss st)"
proof -
  have "groups_complete (fold (surface_pass vh) ss st) \<and>
        handles_bounded (fold (surface_pass vh) ss st)"
    by (rule fold_invariant [where Q = "\<lambda>seen st. groups_complete st \<and> handles_bounded st"
          and seen = "[]", simplified])
      (simp_all add: assms groups_complete_surface_pass handles_bounded_surface_pass)
  then show ?thesis by simp
qed

lemma groups_complete_new_volume:
  assumes "groups_complete st"
  shows "groups_complete (new_volume i st)"
  unfolding groups_complete_def
proof (intro allI impI)
  fix h assume c: "tag_get_data (core (new_volume i st)) Category h = Some (StrVal ''Group'')"
  have "h \<noteq> Suc (n_sets (core st))"
    using c by (auto simp: new_volume_tag(2))
  with c have "tag_get_data (core st) Category h = Some (StrVal ''Group'')"
    by (simp add: new_volume_tag(1))
  with assms show "\<exists>g. known_groups (new_volume i st) g = Some h"
    by (simp add: groups_complete_def new_volume_obs)
qed

lemma groups_complete_group_pass:
  assumes "groups_complete st"
  shows "groups_complete (group_pass m vh g st)"
proof (cases "known_groups st g")
  case None
  show ?thesis
    unfolding groups_complete_def
  proof (intro allI impI)
    fix h assume c: "tag_get_data (core (group_pass m vh g st)) Category h = Some (StrVal ''Group'')"
    show "\<exists>g'. known_groups (group_pass m vh g st) g' = Some h"
    proof (cases "h = Suc (n_sets (core st))")
      case True
      then have "known_groups (group_pass m vh g st) g = Some h"
        by (simp add: group_pass_new(3) [OF None])
      then show ?thesis ..
    next
      case False
      with c have "tag_get_data (core st) Category h = Some (StrVal ''Group'')"
        by (simp add: group_pass_new_tag(1) [OF None])
      with assms obtain g' where g': "known_groups st g' = Some h"
        unfolding groups_complete_def by blast
      with None have "g' \<noteq> g" by auto
      with g' have "known_groups (group_pass m vh g st) g' = Some h"
        by (simp add: group_pass_new(3) [OF None])
      then show ?thesis ..
    qed
  qed
next
  case (Some gh)
  from assms show ?thesis
    by (simp add: groups_complete_def group_pass_known [OF Some])
qed

subsection \<open>One pass, with senses and loads\<close>

lemma full_inv_volume_pass:
  assumes inv: "full_inv m pre st"
  shows "full_inv m (pre @ [v]) (volume_pass m (length pre, v) st)"
proof -
  let ?h = "Suc (n_sets (core st))"
  let ?g = "get_physical_groups_for_entity m 3 v ! 0"
  let ?ss = "snd (get_adjacencies m 3 v)"
  let ?E = "encounters m pre"
  let ?st1 = "new_volume (length pre) st"
  let ?st2 = "group_pass m ?h ?g ?st1"
  let ?st3 = "fold (surface_pass ?h) ?ss ?st2"
  have st3: "volume_pass m (length pre, v) st = ?st3" by (simp add: volume_pass_def)
  from inv have mi: "model_inv m pre st" and so: "sense_ok ?E st" and lo: "loads_ok ?E st"
    and wo: "writes_ok (core st)" and gc: "groups_complete st"
    by (simp_all add: full_inv_def)
  from mi have hb: "handles_bounded st" and len: "length (volumes (core st)) = length pre"
    by (simp_all add: model_inv_def vol_inv_def vol_ids_def)
  have hb1: "handles_bounded ?st1" using hb by (rule handles_bounded_new_volume)
  have hb2: "handles_bounded ?st2" using hb1 by (rule handles_bounded_group_pass)
  have mi3: "model_inv m (pre @ [v]) ?st3"
    using model_inv_volume_pass [OF mi, of v] by (simp add: st3)
  have v1: "volumes (core ?st1) = volumes (core st) @ [?h]" by (rule volumes_new_volume)
  have v2: "volumes (core ?st2) = volumes (core st) @ [?h]"
    by (simp add: volumes_group_pass [OF hb1] v1)
  have so2: "sense_ok ?E ?st2"
    using so by (rule sense_ok_same) (simp_all add: group_pass_frame new_volume_obs v2)
  have lo1: "loads_ok ?E ?st1"
    using lo by (rule loads_ok_same) (simp_all add: new_volume_obs)
  have lo2: "loads_ok ?E ?st2"
    using lo1 by (rule loads_ok_same) (simp_all add: group_pass_frame contents_group_pass)
  have k: "length pre < length (volumes (core ?st2))" by (simp add: v2 len)
  have vh: "?h = volumes (core ?st2) ! length pre" by (simp add: v2 len nth_append)
  from loads_sense_fold [OF so2 lo2 k vh, of ?ss]
  have so3: "sense_ok (encounters m (pre @ [v])) ?st3"
    and lo3: "loads_ok (encounters m (pre @ [v])) ?st3"
    by (simp_all add: encounters_snoc)
  have wo3: "writes_ok (core ?st3)"
    by (intro writes_ok_fold writes_ok_group_pass writes_ok_new_volume wo)
  have gc3: "groups_complete ?st3"
    by (intro groups_complete_fold groups_complete_group_pass groups_complete_new_volume gc hb2)
  from mi3 so3 lo3 wo3 gc3 show ?thesis
    unfolding st3 full_inv_def by simp
qed

lemma full_inv_initial: "full_inv m [] initial_state"
proof -
  have "sense_ok [] initial_state"
    by (simp add: sense_ok_def initial_state_def)
  moreover have "loads_ok [] initial_state"
    by (simp add: loads_ok_def initial_state_def new_core_def)
  moreover have "writes_ok (core initial_state)"
    by (simp add: writes_ok_def sense_writes_def initial_state_def new_core_def)
  moreover have "groups_complete initial_state"
    by (simp add: groups_complete_def initial_state_def new_core_def tag_get_data_def)
  ultimately show ?thesis
    using model_inv_initial [of m] by (simp add: full_inv_def)
qed

lemma full_inv_final:
  assumes "make_from_mesh_body raises m = Inr c"
  obtains st where "full_inv m (volume_tags m) st" and "c = finish (core st)"
proof -
  from assms obtain st where
    run: "process_volumes raises m (enumerate 0 (volume_tags m)) initial_state = Inr st" and
    c: "c = finish (core st)"
    by (rule make_from_mesh_body_Inr)
  have "full_inv m ([] @ volume_tags m) st"
    by (rule process_volumes_invariant [where P = "full_inv m" and m = m and pre = "[]"
          and st = initial_state and raises = raises])
      (simp_all add: full_inv_volume_pass full_inv_initial run)
  with c show ?thesis by (intro that [of st]) simp_all
qed

subsection \<open>Senses and loads of the model a build returns\<close>

lemma model_sense:
  assumes b: "make_from_mesh_body raises m = Inr c" and S: "S \<in> set (surfaces c)"
  obtains s where "tag_get_data c GlobalId S = Some (IntVal s)"
    and "encounter_positions m s \<noteq> []"
    and "\<forall>i \<in> set (encounter_positions m s). i < length (volume_tags m)"
    and "tag_get_data c SurfSense S =
           Some (HandleList (sense_of (volumes c) (encounter_positions m s)))"
proof -
  from b obtain st where inv: "full_inv m (volume_tags m) st" and c: "c = finish (core st)"
    by (rule full_inv_final)
  from inv have mi: "model_inv m (volume_tags m) st"
    and so: "sense_ok (encounters m (volume_tags m)) st"
    by (simp_all add: full_inv_def)
  from mi have tb: "tags_bounded (core st)" and ok: "surf_tags_ok st"
    and len: "length (volumes (core st)) = length (volume_tags m)"
    by (simp_all add: model_inv_def vol_inv_def handles_bounded_def vol_ids_def)
  from S have "S \<in> set (surfaces (core st))" unfolding c by (simp add: finish_frame [OF tb])
  with ok obtain s r where r: "known_surfaces st s = Some r" "handle r = S"
    unfolding surf_tags_ok_def by blast
  with ok have t: "tag_get_data (core st) GlobalId S = Some (IntVal s)"
    "tag_get_data (core st) SurfSense S = Some (HandleList (sense_data r))"
    unfolding surf_tags_ok_def sense_data_def by blast+
  from so r(1) have e: "positions (encounters m (volume_tags m)) s \<noteq> []"
    and sd: "sense_data r = sense_of (volumes (core st)) (positions (encounters m (volume_tags m)) s)"
    by (simp_all add: sense_ok_def)
  from so have "\<forall>p \<in> set (encounters m (volume_tags m)). fst p < length (volumes (core st))"
    by (simp add: sense_ok_def)
  with positions_bound [of _ "encounters m (volume_tags m)" s] len
  have bd: "\<forall>i \<in> set (encounter_positions m s). i < length (volume_tags m)"
    unfolding encounter_positions_def by auto
  show ?thesis
  proof (rule that [of s])
    show "tag_get_data c GlobalId S = Some (IntVal s)"
      unfolding c using t(1) by (simp add: finish_frame [OF tb])
    show "encounter_positions m s \<noteq> []" using e by (simp add: encounter_positions_def)
    show "\<forall>i \<in> set (encounter_positions m s). i < length (volume_tags m)" by (rule bd)
    show "tag_get_data c SurfSense S =
           Some (HandleList (sense_of (volumes c) (encounter_positions m s)))"
      unfolding c using t(2) sd by (simp add: finish_frame [OF tb] encounter_positions_def)
  qed
qed

lemma model_surface_exists:
  assumes b: "make_from_mesh_body raises m = Inr c"
    and s: "s \<in> set (concat (map (\<lambda>v. snd (get_adjacencies m 3 v)) (volume_tags m)))"
  shows "\<exists>S \<in> set (surfaces c). tag_get_data c GlobalId S = Some (IntVal s)"
proof -
  from b obtain st where inv: "full_inv m (volume_tags m) st" and c: "c = finish (core st)"
    by (rule full_inv_final)
  from inv have mi: "model_inv m (volume_tags m) st"
    and so: "sense_ok (encounters m (volume_tags m)) st"
    by (simp_all add: full_inv_def)
  from mi have hb: "handles_bounded st" and ok: "surf_tags_ok st"
    by (simp_all add: model_inv_def vol_inv_def)
  then have tb: "tags_bounded (core st)" by (simp add: handles_bounded_def)
  from s have "s \<in> snd ` set (encounters m (volume_tags m))"
    using map_snd_encounters [of m "volume_tags m"] by (metis set_map)
  with sense_ok_known [OF so, of s] obtain r where r: "known_surfaces st s = Some r" by auto
  from known_surface_in_surfaces [OF ok hb r] have "handle r \<in> set (surfaces c)"
    unfolding c by (simp add: finish_frame [OF tb])
  moreover from ok r have "tag_get_data c GlobalId (handle r) = Some (IntVal s)"
    unfolding c surf_tags_ok_def by (simp add: finish_frame [OF tb])
  ultimately show ?thesis by blast
qed


lemma model_loads:
  assumes b: "make_from_mesh_body raises m = Inr c"
  shows "map fst (loaded c) =
           first_seen (concat (map (\<lambda>v. snd (get_adjacencies m 3 v)) (volume_tags m)))"
    and "i < length (loaded c) \<Longrightarrow>
           snd (loaded c ! i) \<in> set (surfaces c) \<and>
           tag_get_data c GlobalId (snd (loaded c ! i)) = Some (IntVal (fst (loaded c ! i))) \<and>
           FacetBatch i \<in> set (contents c (snd (loaded c ! i)))"
proof -
  from b obtain st where inv: "full_inv m (volume_tags m) st" and c: "c = finish (core st)"
    by (rule full_inv_final)
  from inv have mi: "model_inv m (volume_tags m) st"
    and lo: "loads_ok (encounters m (volume_tags m)) st"
    by (simp_all add: full_inv_def)
  from mi have hb: "handles_bounded st" and ok: "surf_tags_ok st"
    by (simp_all add: model_inv_def vol_inv_def)
  then have tb: "tags_bounded (core st)" by (simp add: handles_bounded_def)
  have ld: "loaded c = loaded (core st)" unfolding c by (simp add: finish_obs)
  from lo show "map fst (loaded c) =
           first_seen (concat (map (\<lambda>v. snd (get_adjacencies m 3 v)) (volume_tags m)))"
    unfolding ld by (simp add: loads_ok_def map_snd_encounters)
  assume i: "i < length (loaded c)"
  let ?p = "loaded (core st) ! i"
  from i have "?p \<in> set (loaded (core st))" unfolding ld by simp
  with lo obtain r where r: "known_surfaces st (fst ?p) = Some r" "handle r = snd ?p"
    unfolding loads_ok_def by blast
  from known_surface_in_surfaces [OF ok hb r(1)] r(2)
  have s: "snd ?p \<in> set (surfaces (core st))" by simp
  from ok r(1) have "tag_get_data (core st) GlobalId (handle r) = Some (IntVal (fst ?p))"
    unfolding surf_tags_ok_def by blast
  with r(2) have id: "tag_get_data (core st) GlobalId (snd ?p) = Some (IntVal (fst ?p))"
    by simp
  from hb r(1) have "handle r \<le> n_sets (core st)" unfolding handles_bounded_def by blast
  with r(2) have "snd ?p \<noteq> Suc (n_sets (core st))" by simp
  then have ct: "contents c (snd ?p) = contents (core st) (snd ?p)"
    unfolding c by (simp add: finish_obs)
  from lo i have "FacetBatch i \<in> set (contents (core st) (snd ?p))"
    unfolding ld loads_ok_def by blast
  with s id ct show "snd (loaded c ! i) \<in> set (surfaces c) \<and>
           tag_get_data c GlobalId (snd (loaded c ! i)) = Some (IntVal (fst (loaded c ! i))) \<and>
           FacetBatch i \<in> set (contents c (snd (loaded c ! i)))"
    unfolding ld unfolding c by (simp add: finish_frame [OF tb])
qed

lemma process_surface_loads:
  assumes "process_surface raises vh s st = Inr st'"
  shows "known_surfaces st s = None \<Longrightarrow>
           loaded (core st') = loaded (core st) @ [(s, Suc (n_sets (core st)))] \<and>
           known_surfaces st' s \<noteq> None"
    and "known_surfaces st s \<noteq> None \<Longrightarrow>
           loaded (core st') = loaded (core st) \<and> contents (core st') = contents (core st)"
proof -
  from assms have st': "st' = surface_pass vh s st"
    by (simp add: process_surface_eq split: if_splits)
  show "loaded (core st') = loaded (core st) @ [(s, Suc (n_sets (core st)))] \<and>
        known_surfaces st' s \<noteq> None" if "known_surfaces st s = None"
    unfolding st' by (simp add: surface_pass_new [OF that])
  show "loaded (core st') = loaded (core st) \<and> contents (core st') = contents (core st)"
    if "known_surfaces st s \<noteq> None"
  proof -
    from that obtain r where "known_surfaces st s = Some r" by auto
    then show ?thesis unfolding st' by (simp add: surface_pass_known)
  qed
qed

lemma process_surface_again:
  assumes "known_surfaces st s = Some r"
  shows "\<exists>st'. process_surface raises vh s st = Inr st' \<and>
              known_surfaces st' s = Some (r\<lparr> reverse_volume := vh \<rparr>) \<and>
              tag_get_data (core st') SurfSense (handle r) =
                Some (HandleList [forward_volume r, vh])"
  using assms
  by (simp add: process_surface_eq surface_pass_known(2) [OF assms]
      surface_pass_known_tag(3) [OF assms])

subsection \<open>Encounters in the examples\<close>

lemma encounter_positions_examples:
  "encounter_positions two_volume_mesh 1 = [0]"
  "encounter_positions two_volume_mesh 2 = [0, 1]"
  "encounter_positions three_volume_mesh 7 = [0, 1, 2]"
  "adjacent_positions three_volume_mesh 7 = [0, 1, 2]"
  unfolding encounter_positions_def adjacent_positions_def volume_tags_examples
  by (simp_all add: encounters_def positions_def get_adjacencies_def two_volume_mesh_def
      three_volume_mesh_def upt_rec)

lemma adjacencies_examples:
  "concat (map (\<lambda>v. snd (get_adjacencies two_volume_mesh 3 v)) (volume_tags two_volume_mesh)) =
     [1, 2, 2, 3]"
  "concat (map (\<lambda>v. snd (get_adjacencies three_volume_mesh 3 v)) (volume_tags three_volume_mesh)) =
     [7, 7, 7]"
  unfolding volume_tags_examples
  by (simp_all add: get_adjacencies_def two_volume_mesh_def three_volume_mesh_def)







subsection \<open>Groups of the model, and the names mesh_geometry gives\<close>












section \<open>Properties of make_from_mesh\<close>

text \<open>
  C3, as the claim states it: \<open>make_from_mesh\<close> fails if and only if some volume of the
  mesh belongs to a number of physical groups different from 1. This does not hold: the
  build also fails when a call out of the module raises. With \<open>gmsh.open\<close> raising in
  \<open>Mesh.__enter__\<close>, the build of a sphere whose one volume belongs to exactly one group
  returns no model.
\<close>

theorem make_from_mesh_fails_iff_counterexample:
  "\<not> (\<forall>raises m g.
        (\<exists>e. fst (make_from_mesh raises m g) = Inl e) \<longleftrightarrow>
        (\<exists>v \<in> set (volume_tags m). length (get_physical_groups_for_entity m 3 v) \<noteq> 1))"
proof
  assume a: "\<forall>raises m g.
        (\<exists>e. fst (make_from_mesh raises m g) = Inl e) \<longleftrightarrow>
        (\<exists>v \<in> set (volume_tags m). length (get_physical_groups_for_entity m 3 v) \<noteq> 1)"
  have "fst (make_from_mesh (\<lambda>k. k = Open) sphere_mesh idle) = Inl ExternalError"
    by (simp add: make_from_mesh_def with_mesh_def enter_def and_then_def call_def idle_def)
  with a have "\<exists>v \<in> set (volume_tags sphere_mesh).
      length (get_physical_groups_for_entity sphere_mesh 3 v) \<noteq> 1"
    by blast
  then show False
    by (simp add: volume_tags_examples groups_examples)
qed

text \<open>
  C3, amended. Whenever some volume of the mesh belongs to a number of physical groups
  different from 1, \<open>make_from_mesh\<close> fails and returns no model. The \<open>ValueError\<close> of the
  count check is raised only for such a mesh; every other failure is the exception of a
  call out of the module that raised (\<open>gmsh.open\<close> in \<open>Mesh.__enter__\<close>, a gmsh query, the
  STL export or its import). So when no such call raises, the build fails if and only if
  some volume belongs to a number of groups different from 1, and when moreover every
  volume belongs to exactly one group a model is returned.
\<close>

theorem make_from_mesh_failures:
  "((\<exists>v \<in> set (volume_tags m). length (get_physical_groups_for_entity m 3 v) \<noteq> 1) \<longrightarrow>
      (\<exists>e. fst (make_from_mesh raises m g) = Inl e)) \<and>
   (fst (make_from_mesh raises m g) = Inl ValueError \<longrightarrow>
      (\<exists>v \<in> set (volume_tags m). length (get_physical_groups_for_entity m 3 v) \<noteq> 1)) \<and>
   (\<forall>e. fst (make_from_mesh raises m g) = Inl e \<longrightarrow>
      e = ValueError \<or> e = ExternalError \<and> (\<exists>k. raises k)) \<and>
   ((\<forall>k. \<not> raises k) \<longrightarrow>
      ((\<exists>e. fst (make_from_mesh raises m g) = Inl e) \<longleftrightarrow>
       (\<exists>v \<in> set (volume_tags m). length (get_physical_groups_for_entity m 3 v) \<noteq> 1)) \<and>
      (\<forall>e. fst (make_from_mesh raises m g) = Inl e \<longrightarrow> e = ValueError)) \<and>
   ((\<forall>k. \<not> raises k) \<and>
    (\<forall>v \<in> set (volume_tags m). length (get_physical_groups_for_entity m 3 v) = 1) \<longrightarrow>
      (\<exists>c. fst (make_from_mesh raises m g) = Inr c))"
proof (intro conjI allI impI)
  assume "\<exists>v \<in> set (volume_tags m). length (get_physical_groups_for_entity m 3 v) \<noteq> 1"
  then show "\<exists>e. fst (make_from_mesh raises m g) = Inl e" by (rule make_from_mesh_bad)
next
  assume "fst (make_from_mesh raises m g) = Inl ValueError"
  from make_from_mesh_Inl [OF this]
  show "\<exists>v \<in> set (volume_tags m). length (get_physical_groups_for_entity m 3 v) \<noteq> 1"
    by simp
next
  fix e assume "fst (make_from_mesh raises m g) = Inl e"
  from make_from_mesh_Inl [OF this]
  show "e = ValueError \<or> e = ExternalError \<and> (\<exists>k. raises k)" by blast
next
  assume n: "\<forall>k. \<not> raises k"
  show "(\<exists>e. fst (make_from_mesh raises m g) = Inl e) \<longleftrightarrow>
        (\<exists>v \<in> set (volume_tags m). length (get_physical_groups_for_entity m 3 v) \<noteq> 1)"
  proof
    assume "\<exists>e. fst (make_from_mesh raises m g) = Inl e"
    then obtain e where "fst (make_from_mesh raises m g) = Inl e" ..
    from make_from_mesh_Inl [OF this] n
    show "\<exists>v \<in> set (volume_tags m). length (get_physical_groups_for_entity m 3 v) \<noteq> 1"
      by blast
  next
    assume "\<exists>v \<in> set (volume_tags m). length (get_physical_groups_for_entity m 3 v) \<noteq> 1"
    then show "\<exists>e. fst (make_from_mesh raises m g) = Inl e" by (rule make_from_mesh_bad)
  qed
next
  fix e assume n: "\<forall>k. \<not> raises k" and "fst (make_from_mesh raises m g) = Inl e"
  from make_from_mesh_Inl [OF this(2)] n show "e = ValueError" by blast
next
  assume "(\<forall>k. \<not> raises k) \<and>
    (\<forall>v \<in> set (volume_tags m). length (get_physical_groups_for_entity m 3 v) = 1)"
  then show "\<exists>c. fst (make_from_mesh raises m g) = Inr c"
    by (intro make_from_mesh_succeeds) simp_all
qed

theorem make_from_mesh_failures_witness:
  "fst (make_from_mesh no_raise ungrouped_mesh idle) = Inl ValueError \<and>
   (\<exists>c. fst (make_from_mesh no_raise sphere_mesh idle) = Inr c)"
proof -
  have bad: "\<exists>v \<in> set (volume_tags ungrouped_mesh).
      length (get_physical_groups_for_entity ungrouped_mesh 3 v) \<noteq> 1"
    by (simp add: volume_tags_examples groups_examples)
  have good: "\<forall>v \<in> set (volume_tags sphere_mesh).
      length (get_physical_groups_for_entity sphere_mesh 3 v) = 1"
    by (simp add: volume_tags_examples groups_examples)
  from make_from_mesh_failures [of ungrouped_mesh no_raise idle] bad no_raise_never
  have "fst (make_from_mesh no_raise ungrouped_mesh idle) = Inl ValueError" by blast
  moreover from make_from_mesh_failures [of sphere_mesh no_raise idle] good no_raise_never
  have "\<exists>c. fst (make_from_mesh no_raise sphere_mesh idle) = Inr c" by blast
  ultimately show ?thesis by simp
qed

text \<open>
  C4. A successful build from a mesh with \<open>N\<close> volumes creates exactly \<open>N\<close> Volume
  entities. \<open>volumes\<close> lists them by handle, which is the order of their creation, one per
  pass of the loop over the mesh's volumes; the \<open>i\<close>-th (from 0) carries \<open>global_id\<close> \<open>i\<close>
  and category Volume, so the ids are \<open>0 .. N-1\<close>. The entity with id \<open>i\<close> is the one made
  for the \<open>i\<close>-th volume the mesh supplies: its child surfaces carry the surface tags of
  that mesh volume as their ids, in the order of the adjacency list, and it lies in the
  Group set whose id is the physical group of that mesh volume.
\<close>

theorem volumes_numbered_in_mesh_order:
  assumes "fst (make_from_mesh raises m g) = Inr c"
  shows "length (volumes c) = length (volume_tags m) \<and>
         sorted_wrt (<) (volumes c) \<and>
         map (tag_get_data c GlobalId) (volumes c) =
           map (\<lambda>i. Some (IntVal (int i))) [0 ..< length (volume_tags m)] \<and>
         (\<forall>i < length (volume_tags m).
            tag_get_data c GlobalId (volumes c ! i) = Some (IntVal (int i)) \<and>
            tag_get_data c Category (volumes c ! i) = Some (StrVal ''Volume'') \<and>
            map (tag_get_data c GlobalId) (adjacent_surfaces c (volumes c ! i)) =
              map (\<lambda>s. Some (IntVal s))
                (first_seen (snd (get_adjacencies m 3 (volume_tags m ! i)))) \<and>
            (\<exists>gh. tag_get_data c Category gh = Some (StrVal ''Group'') \<and>
                  tag_get_data c GlobalId gh =
                    Some (IntVal (get_physical_groups_for_entity m 3 (volume_tags m ! i) ! 0)) \<and>
                  MeshSet (volumes c ! i) \<in> set (contents c gh)))"
proof -
  from assms have b: "make_from_mesh_body raises m = Inr c" by (rule make_from_mesh_Inr)
  then have v: "vol_ids (length (volume_tags m)) c" by (rule vol_ids_final)
  have s: "sorted_wrt (<) (volumes c)"
    unfolding volumes_def get_entities_of_geom_dimension_def
    by (rule sorted_wrt_filter [OF sorted_wrt_upt])
  have ids: "map (tag_get_data c GlobalId) (volumes c) =
        map (\<lambda>i. Some (IntVal (int i))) [0 ..< length (volume_tags m)]"
    using v by (intro nth_equalityI) (simp_all add: vol_ids_def)
  have "tag_get_data c GlobalId (volumes c ! i) = Some (IntVal (int i)) \<and>
        tag_get_data c Category (volumes c ! i) = Some (StrVal ''Volume'') \<and>
        map (tag_get_data c GlobalId) (adjacent_surfaces c (volumes c ! i)) =
          map (\<lambda>s. Some (IntVal s))
            (first_seen (snd (get_adjacencies m 3 (volume_tags m ! i)))) \<and>
        (\<exists>gh. tag_get_data c Category gh = Some (StrVal ''Group'') \<and>
              tag_get_data c GlobalId gh =
                Some (IntVal (get_physical_groups_for_entity m 3 (volume_tags m ! i) ! 0)) \<and>
              MeshSet (volumes c ! i) \<in> set (contents c gh))"
    if i: "i < length (volume_tags m)" for i
  proof -
    from v i have "tag_get_data c GlobalId (volumes c ! i) = Some (IntVal (int i))"
      "tag_get_data c Category (volumes c ! i) = Some (StrVal ''Volume'')"
      by (simp_all add: vol_ids_def)
    moreover note model_volume_links(1) [OF b i]
    moreover from model_volume_links(2) [OF b i]
    have "\<exists>gh. tag_get_data c Category gh = Some (StrVal ''Group'') \<and>
              tag_get_data c GlobalId gh =
                Some (IntVal (get_physical_groups_for_entity m 3 (volume_tags m ! i) ! 0)) \<and>
              MeshSet (volumes c ! i) \<in> set (contents c gh)"
      by blast
    ultimately show ?thesis by simp
  qed
  with v s ids show ?thesis by (simp add: vol_ids_def)
qed

theorem volumes_numbered_in_mesh_order_witness:
  "\<exists>c. fst (make_from_mesh no_raise two_volume_mesh idle) = Inr c \<and>
       length (volumes c) = 2 \<and>
       map (tag_get_data c GlobalId) (volumes c) = [Some (IntVal 0), Some (IntVal 1)] \<and>
       map (tag_get_data c GlobalId) (adjacent_surfaces c (volumes c ! 0)) =
         [Some (IntVal 1), Some (IntVal 2)] \<and>
       map (tag_get_data c GlobalId) (adjacent_surfaces c (volumes c ! 1)) =
         [Some (IntVal 2), Some (IntVal 3)] \<and>
       (\<exists>gh. tag_get_data c GlobalId gh = Some (IntVal 2) \<and>
             tag_get_data c Category gh = Some (StrVal ''Group'') \<and>
             MeshSet (volumes c ! 1) \<in> set (contents c gh))"
proof -
  from examples_build(2) obtain c where
    c: "fst (make_from_mesh no_raise two_volume_mesh idle) = Inr c" ..
  have adj: "snd (get_adjacencies two_volume_mesh 3 1) = [1, 2]"
    "snd (get_adjacencies two_volume_mesh 3 2) = [2, 3]"
    by (simp_all add: get_adjacencies_def two_volume_mesh_def)
  note t = volumes_numbered_in_mesh_order [OF c]
  from t have h: "length (volumes c) = 2"
    "map (tag_get_data c GlobalId) (volumes c) = [Some (IntVal 0), Some (IntVal 1)]"
    by (simp_all add: volume_tags_examples upt_rec)
  note q = t [THEN conjunct2, THEN conjunct2, THEN conjunct2, rule_format]
  from q [of 0] have h0: "map (tag_get_data c GlobalId) (adjacent_surfaces c (volumes c ! 0)) =
         [Some (IntVal 1), Some (IntVal 2)]"
    by (simp add: volume_tags_examples adj first_seen_def)
  have one: "1 < length (volume_tags two_volume_mesh)"
    by (simp add: volume_tags_examples)
  have v1: "volume_tags two_volume_mesh ! 1 = 2"
    by (simp add: volume_tags_examples)
  note q1 = q [OF one, unfolded v1 adj groups_examples]
  from q1 have h1: "map (tag_get_data c GlobalId) (adjacent_surfaces c (volumes c ! 1)) =
         [Some (IntVal 2), Some (IntVal 3)]"
    by (simp add: first_seen_def)
  from q1 obtain gh where "tag_get_data c Category gh = Some (StrVal ''Group'')"
    "tag_get_data c GlobalId gh = Some (IntVal ([2] ! 0))"
    "MeshSet (volumes c ! 1) \<in> set (contents c gh)"
    by blast
  then have g1: "\<exists>gh. tag_get_data c GlobalId gh = Some (IntVal 2) \<and>
             tag_get_data c Category gh = Some (StrVal ''Group'') \<and>
             MeshSet (volumes c ! 1) \<in> set (contents c gh)"
    by (intro exI [of _ gh]) simp
  show ?thesis
    by (rule exI [of _ c]) (insert c h h0 h1 g1, simp)
qed

text \<open>
  C5. In the model a build returns, a set \<open>S\<close> is among the adjacent surfaces of a set \<open>V\<close>
  if and only if \<open>V\<close> is among the adjacent volumes of \<open>S\<close>; in particular for every Surface
  \<open>S\<close> and every Volume \<open>V\<close> of the model. Entities are compared by handle. The relation
  is the one of the mesh: the adjacent surfaces of a Volume are Surfaces of the model, and a
  Surface is adjacent to the \<open>i\<close>-th Volume exactly when its id is a surface tag in the
  adjacency list of the \<open>i\<close>-th mesh volume.
\<close>

theorem adjacency_consistent:
  assumes "fst (make_from_mesh raises m g) = Inr c"
  shows "(\<forall>S \<in> set (surfaces c). \<forall>V \<in> set (volumes c).
            S \<in> set (adjacent_surfaces c V) \<longleftrightarrow> V \<in> set (adjacent_volumes c S)) \<and>
         (\<forall>V \<in> set (volumes c). set (adjacent_surfaces c V) \<subseteq> set (surfaces c)) \<and>
         (\<forall>i < length (volume_tags m). \<forall>S \<in> set (surfaces c).
            S \<in> set (adjacent_surfaces c (volumes c ! i)) \<longleftrightarrow>
            (\<exists>s \<in> set (snd (get_adjacencies m 3 (volume_tags m ! i))).
               tag_get_data c GlobalId S = Some (IntVal s)))"
proof (intro conjI ballI allI impI)
  from assms have b: "make_from_mesh_body raises m = Inr c" by (rule make_from_mesh_Inr)
  {
    fix S V
    show "S \<in> set (adjacent_surfaces c V) \<longleftrightarrow> V \<in> set (adjacent_volumes c S)"
      using b by (rule model_links)
  next
    fix V show "set (adjacent_surfaces c V) \<subseteq> set (surfaces c)"
      using model_children_surfaces [OF b] by blast
  next
    fix i S assume i: "i < length (volume_tags m)" and S: "S \<in> set (surfaces c)"
    let ?adj = "snd (get_adjacencies m 3 (volume_tags m ! i))"
    have ids: "set (map (tag_get_data c GlobalId) (adjacent_surfaces c (volumes c ! i))) =
               (\<lambda>s. Some (IntVal s)) ` set ?adj"
      by (simp add: model_volume_links(1) [OF b i])
    show "S \<in> set (adjacent_surfaces c (volumes c ! i)) \<longleftrightarrow>
          (\<exists>s \<in> set ?adj. tag_get_data c GlobalId S = Some (IntVal s))"
    proof
      assume "S \<in> set (adjacent_surfaces c (volumes c ! i))"
      then have "tag_get_data c GlobalId S \<in>
          set (map (tag_get_data c GlobalId) (adjacent_surfaces c (volumes c ! i)))" by simp
      then show "\<exists>s \<in> set ?adj. tag_get_data c GlobalId S = Some (IntVal s)"
        unfolding ids by auto
    next
      assume "\<exists>s \<in> set ?adj. tag_get_data c GlobalId S = Some (IntVal s)"
      then have "tag_get_data c GlobalId S \<in>
          set (map (tag_get_data c GlobalId) (adjacent_surfaces c (volumes c ! i)))"
        unfolding ids by auto
      then obtain x where x: "x \<in> set (adjacent_surfaces c (volumes c ! i))"
        "tag_get_data c GlobalId S = tag_get_data c GlobalId x" by auto
      from model_children_surfaces [OF b x(1)] have "x \<in> set (surfaces c)" .
      with b S have "S = x" using x(2) by (rule model_surface_ids)
      with x(1) show "S \<in> set (adjacent_surfaces c (volumes c ! i))" by simp
    qed
  }
qed

theorem adjacency_consistent_witness:
  "\<exists>c S V. fst (make_from_mesh no_raise two_volume_mesh idle) = Inr c \<and>
       V \<in> set (volumes c) \<and> S \<in> set (surfaces c) \<and>
       tag_get_data c GlobalId V = Some (IntVal 1) \<and>
       tag_get_data c GlobalId S = Some (IntVal 2) \<and>
       S \<in> set (adjacent_surfaces c V) \<and> V \<in> set (adjacent_volumes c S)"
proof -
  from examples_build(2) obtain c where
    c: "fst (make_from_mesh no_raise two_volume_mesh idle) = Inr c" ..
  from c have b: "make_from_mesh_body no_raise two_volume_mesh = Inr c"
    by (rule make_from_mesh_Inr)
  have one: "1 < length (volume_tags two_volume_mesh)" by (simp add: volume_tags_examples)
  have v1: "volume_tags two_volume_mesh ! 1 = 2" by (simp add: volume_tags_examples)
  have adj: "snd (get_adjacencies two_volume_mesh 3 (volume_tags two_volume_mesh ! 1)) = [2, 3]"
    unfolding v1 by (simp add: get_adjacencies_def two_volume_mesh_def)
  let ?V = "volumes c ! 1"
  let ?S = "adjacent_surfaces c ?V ! 0"
  from vol_ids_final [OF b] have len: "length (volumes c) = 2"
    and idV: "tag_get_data c GlobalId ?V = Some (IntVal 1)"
    by (simp_all add: vol_ids_def volume_tags_examples)
  then have V: "?V \<in> set (volumes c)" by simp
  from model_volume_links(1) [OF b one, unfolded adj]
  have m: "map (tag_get_data c GlobalId) (adjacent_surfaces c ?V) =
           [Some (IntVal 2), Some (IntVal 3)]"
    by (simp add: first_seen_def)
  then have "length (adjacent_surfaces c ?V) = 2"
    by (metis length_map length_Cons list.size(3) numeral_2_eq_2)
  then have in_adj: "?S \<in> set (adjacent_surfaces c ?V)" by simp
  from m have idS: "tag_get_data c GlobalId ?S = Some (IntVal 2)"
    by (metis \<open>length (adjacent_surfaces c ?V) = 2\<close> nth_Cons_0 nth_map zero_less_numeral)
  note t = adjacency_consistent [OF c]
  from t V in_adj have S: "?S \<in> set (surfaces c)" by blast
  with t V in_adj have "?V \<in> set (adjacent_volumes c ?S)" by blast
  with V S idV idS in_adj show ?thesis
    by (intro exI [of _ c] exI [of _ ?S] exI [of _ ?V]) (simp add: c)
qed

text \<open>
  C8. The model a build returns holds exactly one set with the \<open>faceting_tol\<close> tag: the
  file set, created last, after every Volume and Surface. Its tolerance is the constant
  \<open>1e-3\<close> whatever the mesh. It contains every entity of the store that existed when it was
  created: every other set and every batch of facets.
\<close>

theorem file_set_holds_everything:
  assumes "fst (make_from_mesh raises m g) = Inr c"
  shows "(\<forall>h. tag_get_data c FacetingTol h \<noteq> None \<longleftrightarrow> h = n_sets c) \<and>
         tag_get_data c FacetingTol (n_sets c) = Some (DoubleVal (1 / 1000)) \<and>
         (\<forall>x \<in> set (volumes c) \<union> set (surfaces c). x < n_sets c) \<and>
         set (contents c (n_sets c)) = set (get_entities_by_handle c) - {MeshSet (n_sets c)}"
proof -
  from assms have b: "make_from_mesh_body raises m = Inr c" by (rule make_from_mesh_Inr)
  from file_set [OF b] show ?thesis by (simp add: faceting_tol_value_def)
qed

theorem file_set_holds_everything_witness:
  "\<exists>c. fst (make_from_mesh no_raise sphere_mesh idle) = Inr c \<and>
       tag_get_data c FacetingTol (n_sets c) = Some (DoubleVal (1 / 1000)) \<and>
       volumes c ! 0 \<in> set (volumes c) \<and> volumes c ! 0 < n_sets c \<and>
       MeshSet (volumes c ! 0) \<in> set (contents c (n_sets c))"
proof -
  from examples_build(1) obtain c where
    c: "fst (make_from_mesh no_raise sphere_mesh idle) = Inr c" ..
  from c have b: "make_from_mesh_body no_raise sphere_mesh = Inr c"
    by (rule make_from_mesh_Inr)
  from vol_ids_final [OF b] have "length (volumes c) = 1"
    by (simp add: vol_ids_def volume_tags_examples)
  then have V: "volumes c ! 0 \<in> set (volumes c)" by simp
  then have pos: "1 \<le> volumes c ! 0" using volumes_bounds by blast
  note t = file_set_holds_everything [OF c]
  from t V have lt: "volumes c ! 0 < n_sets c" by blast
  with pos have "MeshSet (volumes c ! 0) \<in> set (get_entities_by_handle c) - {MeshSet (n_sets c)}"
    by (simp add: get_entities_by_handle_def)
  with t have "MeshSet (volumes c ! 0) \<in> set (contents c (n_sets c))" by simp
  with t V lt show ?thesis
    by (intro exI [of _ c]) (simp add: c)
qed



text \<open>
  C2, as the claim states it: a mesh in which a surface tag is in the adjacency lists of
  more than two volumes makes the build fail. This does not hold: the program has no check
  of the number of encounters and no such error. Three volumes that all list surface 7 are
  built into a model.
\<close>

theorem third_encounter_fails_counterexample:
  "\<not> (\<forall>m. (\<exists>s. 2 < length (adjacent_positions m s)) \<longrightarrow>
           (\<exists>e. fst (make_from_mesh no_raise m idle) = Inl e))"
proof
  assume a: "\<forall>m. (\<exists>s. 2 < length (adjacent_positions m s)) \<longrightarrow>
           (\<exists>e. fst (make_from_mesh no_raise m idle) = Inl e)"
  have "2 < length (adjacent_positions three_volume_mesh 7)"
    by (simp add: encounter_positions_examples)
  with a obtain e where "fst (make_from_mesh no_raise three_volume_mesh idle) = Inl e"
    by blast
  with examples_build(3) show False by simp
qed

text \<open>
  C2, amended. An encounter of a surface tag that is already known never fails, however
  many came before: it overwrites the reverse volume of the record with the current volume
  and writes the pair again. So the number of volumes that list a surface plays no part in
  whether the build returns a model, and in the model the sense of a surface met more than
  once holds the volume of the first and the volume of the last encounter.
\<close>

theorem later_encounters_overwrite:
  "(\<forall>r. known_surfaces st s = Some r \<longrightarrow>
      (\<exists>st'. process_surface raises vh s st = Inr st' \<and>
             known_surfaces st' s = Some (r\<lparr> reverse_volume := vh \<rparr>) \<and>
             tag_get_data (core st') SurfSense (handle r) =
               Some (HandleList [forward_volume r, vh]))) \<and>
   ((\<forall>k. \<not> raises k) \<and>
    (\<forall>v \<in> set (volume_tags m). length (get_physical_groups_for_entity m 3 v) = 1) \<longrightarrow>
      (\<exists>c. fst (make_from_mesh raises m g) = Inr c)) \<and>
   (\<forall>c. fst (make_from_mesh raises m g) = Inr c \<longrightarrow>
      (\<forall>S \<in> set (surfaces c). \<exists>s.
         tag_get_data c GlobalId S = Some (IntVal s) \<and>
         (2 \<le> length (encounter_positions m s) \<longrightarrow>
            tag_get_data c SurfSense S =
              Some (HandleList [volumes c ! hd (encounter_positions m s),
                                volumes c ! last (encounter_positions m s)]))))"
proof (intro conjI allI impI ballI)
  fix r assume "known_surfaces st s = Some r"
  then show "\<exists>st'. process_surface raises vh s st = Inr st' \<and>
             known_surfaces st' s = Some (r\<lparr> reverse_volume := vh \<rparr>) \<and>
             tag_get_data (core st') SurfSense (handle r) =
               Some (HandleList [forward_volume r, vh])"
    by (rule process_surface_again)
next
  assume "(\<forall>k. \<not> raises k) \<and>
    (\<forall>v \<in> set (volume_tags m). length (get_physical_groups_for_entity m 3 v) = 1)"
  then show "\<exists>c. fst (make_from_mesh raises m g) = Inr c"
    by (intro make_from_mesh_succeeds) simp_all
next
  fix c S assume "fst (make_from_mesh raises m g) = Inr c" and S: "S \<in> set (surfaces c)"
  then have b: "make_from_mesh_body raises m = Inr c" by (simp add: make_from_mesh_Inr)
  from b S obtain s where id: "tag_get_data c GlobalId S = Some (IntVal s)"
    and t: "tag_get_data c SurfSense S =
         Some (HandleList (sense_of (volumes c) (encounter_positions m s)))"
    by (rule model_sense)
  then show "\<exists>s. tag_get_data c GlobalId S = Some (IntVal s) \<and>
         (2 \<le> length (encounter_positions m s) \<longrightarrow>
            tag_get_data c SurfSense S =
              Some (HandleList [volumes c ! hd (encounter_positions m s),
                                volumes c ! last (encounter_positions m s)]))"
    by (intro exI [of _ s]) (simp add: sense_of_def)
qed

theorem later_encounters_overwrite_witness:
  "\<exists>c S. fst (make_from_mesh no_raise three_volume_mesh idle) = Inr c \<and>
       S \<in> set (surfaces c) \<and> tag_get_data c GlobalId S = Some (IntVal 7) \<and>
       tag_get_data c SurfSense S = Some (HandleList [volumes c ! 0, volumes c ! 2])"
proof -
  note t = later_encounters_overwrite [of _ _ no_raise _ three_volume_mesh idle]
  have "\<forall>v \<in> set (volume_tags three_volume_mesh).
      length (get_physical_groups_for_entity three_volume_mesh 3 v) = 1"
    by (simp add: volume_tags_examples groups_examples)
  with t no_raise_never obtain c where
    c: "fst (make_from_mesh no_raise three_volume_mesh idle) = Inr c" by blast
  from c have b: "make_from_mesh_body no_raise three_volume_mesh = Inr c"
    by (rule make_from_mesh_Inr)
  from model_surface_exists [OF b, of 7] obtain S where
    S: "S \<in> set (surfaces c)" "tag_get_data c GlobalId S = Some (IntVal 7)"
    by (auto simp: adjacencies_examples)
  from t c S(1) obtain s where "tag_get_data c GlobalId S = Some (IntVal s)"
    "2 \<le> length (encounter_positions three_volume_mesh s) \<longrightarrow>
       tag_get_data c SurfSense S =
         Some (HandleList [volumes c ! hd (encounter_positions three_volume_mesh s),
                           volumes c ! last (encounter_positions three_volume_mesh s)])"
    by blast
  with S(2) have "tag_get_data c SurfSense S = Some (HandleList [volumes c ! 0, volumes c ! 2])"
    by (auto simp: encounter_positions_examples)
  with c S show ?thesis
    by (intro exI [of _ c] exI [of _ S]) simp
qed

text \<open>
  C6. During a build the facets of a surface are exported and loaded into the store in the
  pass that meets its surface tag for the first time, and in no later pass: an encounter
  of an unknown tag appends one load, an encounter of a known tag none. So in the model
  returned the loads are one per surface tag met, in the order of first encounter, and
  each batch of facets lies in the set of the Surface with that tag as its id.
\<close>

theorem facets_loaded_once:
  "(\<forall>st vh s st'. process_surface raises vh s st = Inr st' \<longrightarrow>
      (known_surfaces st s = None \<longrightarrow>
         loaded (core st') = loaded (core st) @ [(s, Suc (n_sets (core st)))] \<and>
         known_surfaces st' s \<noteq> None) \<and>
      (known_surfaces st s \<noteq> None \<longrightarrow>
         loaded (core st') = loaded (core st) \<and> contents (core st') = contents (core st))) \<and>
   (\<forall>c. fst (make_from_mesh raises m g) = Inr c \<longrightarrow>
      map fst (loaded c) =
        first_seen (concat (map (\<lambda>v. snd (get_adjacencies m 3 v)) (volume_tags m))) \<and>
      distinct (map fst (loaded c)) \<and>
      (\<forall>i < length (loaded c).
         snd (loaded c ! i) \<in> set (surfaces c) \<and>
         tag_get_data c GlobalId (snd (loaded c ! i)) = Some (IntVal (fst (loaded c ! i))) \<and>
         FacetBatch i \<in> set (contents c (snd (loaded c ! i)))))"
proof (intro conjI allI impI)
  fix st vh s st' assume p: "process_surface raises vh s st = Inr st'"
  {
    assume "known_surfaces st s = None"
    with process_surface_loads(1) [OF p]
    show "loaded (core st') = loaded (core st) @ [(s, Suc (n_sets (core st)))]"
      and "known_surfaces st' s \<noteq> None" by simp_all
  next
    assume "known_surfaces st s \<noteq> None"
    with process_surface_loads(2) [OF p]
    show "loaded (core st') = loaded (core st)"
      and "contents (core st') = contents (core st)" by simp_all
  }
next
  fix c assume "fst (make_from_mesh raises m g) = Inr c"
  then have b: "make_from_mesh_body raises m = Inr c" by (rule make_from_mesh_Inr)
  show l: "map fst (loaded c) =
        first_seen (concat (map (\<lambda>v. snd (get_adjacencies m 3 v)) (volume_tags m)))"
    by (rule model_loads(1) [OF b])
  show "distinct (map fst (loaded c))" unfolding l by simp
  fix i assume i: "i < length (loaded c)"
  from model_loads(2) [OF b i]
  show "snd (loaded c ! i) \<in> set (surfaces c)"
    and "tag_get_data c GlobalId (snd (loaded c ! i)) = Some (IntVal (fst (loaded c ! i)))"
    and "FacetBatch i \<in> set (contents c (snd (loaded c ! i)))"
    by simp_all
qed

theorem facets_loaded_once_witness:
  "\<exists>c. fst (make_from_mesh no_raise two_volume_mesh idle) = Inr c \<and>
       map fst (loaded c) = [1, 2, 3] \<and>
       snd (loaded c ! 1) \<in> set (surfaces c) \<and>
       tag_get_data c GlobalId (snd (loaded c ! 1)) = Some (IntVal 2) \<and>
       FacetBatch 1 \<in> set (contents c (snd (loaded c ! 1)))"
proof -
  from examples_build(2) obtain c where
    c: "fst (make_from_mesh no_raise two_volume_mesh idle) = Inr c" ..
  note t = facets_loaded_once [of no_raise two_volume_mesh idle, THEN conjunct2, rule_format, OF c]
  from t have l: "map fst (loaded c) = [1, 2, 3]"
    by (simp add: adjacencies_examples first_seen_def)
  then have len: "length (loaded c) = 3" by (metis length_map length_Cons list.size(3) numeral_3_eq_3)
  then have i: "1 < length (loaded c)" by simp
  from l i have f: "fst (loaded c ! 1) = 2" by (metis nth_map nth_Cons_0 nth_Cons_Suc One_nat_def)
  from t i have "snd (loaded c ! 1) \<in> set (surfaces c) \<and>
         tag_get_data c GlobalId (snd (loaded c ! 1)) = Some (IntVal (fst (loaded c ! 1))) \<and>
         FacetBatch 1 \<in> set (contents c (snd (loaded c ! 1)))"
    by blast
  with c l f show ?thesis
    by (intro exI [of _ c]) simp
qed




section \<open>Properties of the mesh context\<close>




section \<open>Properties of Geometry\<close>

text \<open>
  C10. Constructing a Geometry, directly or through \<open>import_step\<close> or \<open>import_brep\<close>, raises
  \<open>ValueError\<close> whenever the number of material names differs from the number of solids
  (for the imports: of solids in the file), and otherwise returns the geometry with the
  given solids and material names stored in order.
\<close>

theorem geometry_length_check:
  "(length mn \<noteq> length ss \<longrightarrow> Geometry_init ss mn = Inl ValueError) \<and>
   (length mn = length ss \<longrightarrow>
      Geometry_init ss mn = Inr \<lparr> solids = ss, material_names = mn \<rparr>) \<and>
   (length mn \<noteq> length (rd fn) \<longrightarrow>
      import_step rd fn mn = Inl ValueError \<and> import_brep rd fn mn = Inl ValueError) \<and>
   (length mn = length (rd fn) \<longrightarrow>
      import_step rd fn mn = Inr \<lparr> solids = rd fn, material_names = mn \<rparr> \<and>
      import_brep rd fn mn = Inr \<lparr> solids = rd fn, material_names = mn \<rparr>)"
  by (simp add: Geometry_init_def import_step_def import_brep_def)

theorem geometry_length_check_witness:
  "Geometry_init [0::nat] [''iron'', ''lead''] = Inl ValueError \<and>
   Geometry_init [0::nat, 1] [''iron'', ''lead''] =
     Inr \<lparr> solids = [0, 1], material_names = [''iron'', ''lead''] \<rparr> \<and>
   import_step (\<lambda>_. [0::nat]) ''a.step'' [''iron'', ''lead''] = Inl ValueError \<and>
   import_brep (\<lambda>_. [0::nat]) ''a.brep'' [''iron'', ''lead''] = Inl ValueError \<and>
   import_step (\<lambda>_. [0::nat, 1]) ''a.step'' [''iron'', ''lead''] =
     Inr \<lparr> solids = [0, 1], material_names = [''iron'', ''lead''] \<rparr> \<and>
   import_brep (\<lambda>_. [0::nat, 1]) ''a.brep'' [''iron'', ''lead''] =
     Inr \<lparr> solids = [0, 1], material_names = [''iron'', ''lead''] \<rparr>"
  using geometry_length_check [of "[''iron'', ''lead'']" "[0::nat]" "\<lambda>_. [0::nat]" "''a.step''"]
        geometry_length_check [of "[''iron'', ''lead'']" "[0::nat, 1]" "\<lambda>_. [0::nat, 1]" "''a.step''"]
  by (simp add: import_step_def import_brep_def Geometry_init_def)

end
